theory Spec2Isabelle
  imports Main "HOL-Library.Word" "HOL-Library.Sublist"
begin

section \<open>Text: Python strings as lists of code points\<close>

text \<open>
  A Python \<open>str\<close> is a sequence of Unicode code points, so text is a list of
  natural numbers (the code points). \<open>ustr\<close> reads an ASCII literal.
\<close>

type_synonym ustring = "nat list"

definition ustr :: "string \<Rightarrow> ustring" where
  "ustr s = map of_char s"

abbreviation dq :: nat where "dq \<equiv> 34"
abbreviation bsl :: nat where "bsl \<equiv> 92"
abbreviation colon :: nat where "colon \<equiv> 58"
abbreviation slash :: nat where "slash \<equiv> 47"
abbreviation star :: nat where "star \<equiv> 42"
abbreviation nl :: nat where "nl \<equiv> 10"
abbreviation cr :: nat where "cr \<equiv> 13"
abbreviation lbrack :: nat where "lbrack \<equiv> 91"
abbreviation rbrack :: nat where "rbrack \<equiv> 93"

definition name_key :: ustring where
  "name_key = ustr ''Name''"

definition desc_key :: ustring where
  "desc_key = ustr ''Description''"

definition uniqueid_key :: ustring where
  "uniqueid_key = ustr ''UniqueID''"

definition updatekeys_key :: ustring where
  "updatekeys_key = ustr ''UpdateKeys''"

text \<open>
  The class \<open>\s\<close> of a \<open>str\<close> pattern is Python's Unicode whitespace
  (\<open>str.isspace\<close>): U+0009..U+000D, U+001C..U+0020, U+0085, U+00A0, U+1680,
  U+2000..U+200A, U+2028, U+2029, U+202F, U+205F and U+3000.
\<close>

definition is_space :: "nat \<Rightarrow> bool" where
  "is_space c \<longleftrightarrow>
     (9 \<le> c \<and> c \<le> 13) \<or> (28 \<le> c \<and> c \<le> 32) \<or> c = 133 \<or> c = 160 \<or> c = 5760 \<or>
     (8192 \<le> c \<and> c \<le> 8202) \<or> c = 8232 \<or> c = 8233 \<or> c = 8239 \<or> c = 8287 \<or>
     c = 12288"

text \<open>The ASCII digits \<open>0\<close>..\<open>9\<close> and the octal digits \<open>0\<close>..\<open>7\<close>.\<close>

definition is_digit :: "nat \<Rightarrow> bool" where
  "is_digit c \<longleftrightarrow> 48 \<le> c \<and> c \<le> 57"

definition is_octdigit :: "nat \<Rightarrow> bool" where
  "is_octdigit c \<longleftrightarrow> 48 \<le> c \<and> c \<le> 55"

section \<open>The field patterns\<close>

text \<open>
  Matching one pattern character against one text character. Without
  \<open>re.IGNORECASE\<close> it is equality. With it (only the \<open>UniqueID\<close> pattern),
  a letter of the pattern matches every character whose simple lower case is
  the letter's, and the pattern letters \<open>i\<close>, \<open>k\<close>, \<open>s\<close> also match
  U+0131, U+212A (whose lower case is \<open>k\<close>) and U+017F; U+0130 has lower
  case \<open>i\<close>. The pattern characters are ASCII.
\<close>

definition ascii_lower :: "nat \<Rightarrow> nat" where
  "ascii_lower c = (if 65 \<le> c \<and> c \<le> 90 then c + 32 else c)"

definition chr_match :: "bool \<Rightarrow> nat \<Rightarrow> nat \<Rightarrow> bool" where
  "chr_match ic p c =
     (if ic \<and> 97 \<le> ascii_lower p \<and> ascii_lower p \<le> 122
      then ascii_lower c = ascii_lower p
           \<or> (ascii_lower p = 105 \<and> (c = 304 \<or> c = 305))
           \<or> (ascii_lower p = 107 \<and> c = 8490)
           \<or> (ascii_lower p = 115 \<and> c = 383)
      else c = p)"

fun match_literal :: "bool \<Rightarrow> ustring \<Rightarrow> ustring \<Rightarrow> ustring option" where
  "match_literal ic [] s = Some s"
| "match_literal ic (p # ps) [] = None"
| "match_literal ic (p # ps) (c # s) =
     (if chr_match ic p c then match_literal ic ps s else None)"

text \<open>
  \<open>match_field_at ic key s\<close> matches the pattern
  \<^verbatim>\<open>"<key>"\s*:\s*"[^"]*"\<close> at the start of \<open>s\<close>. The result holds the text
  up to and including the opening quote of the value (group 1 of the
  substitution pattern), the value (group 1 of the extraction pattern) and the
  text after the closing quote. Each greedy repetition is followed by a
  character outside its class, so the first way to match is the only one and
  no backtracking is involved.
\<close>

definition match_field_at ::
  "bool \<Rightarrow> ustring \<Rightarrow> ustring \<Rightarrow> (ustring \<times> ustring \<times> ustring) option" where
  "match_field_at ic key s =
     (case match_literal ic (dq # key @ [dq]) s of
        None \<Rightarrow> None
      | Some s1 \<Rightarrow>
          (case dropWhile is_space s1 of
             [] \<Rightarrow> None
           | c # s2 \<Rightarrow>
               if c \<noteq> colon then None
               else (case dropWhile is_space s2 of
                       [] \<Rightarrow> None
                     | q # s3 \<Rightarrow>
                         if q \<noteq> dq then None
                         else (case dropWhile (\<lambda>x. x \<noteq> dq) s3 of
                                 [] \<Rightarrow> None
                               | e # rest \<Rightarrow>
                                   Some (take (length s - length s3) s,
                                         takeWhile (\<lambda>x. x \<noteq> dq) s3, rest)))))"

text \<open>
  \<open>pattern.search\<close>: the leftmost position where the pattern matches, as the
  text before the match, group 1 of the substitution pattern, the value and
  the text after the match.
\<close>

fun re_search_field ::
  "bool \<Rightarrow> ustring \<Rightarrow> ustring \<Rightarrow> (ustring \<times> ustring \<times> ustring \<times> ustring) option" where
  "re_search_field ic key [] = None"
| "re_search_field ic key (c # s) =
     (case match_field_at ic key (c # s) of
        Some m \<Rightarrow> Some ([], m)
      | None \<Rightarrow> map_option (\<lambda>(pre, m). (c # pre, m)) (re_search_field ic key s))"

section \<open>Comment stripping\<close>

text \<open>
  \<^verbatim>\<open>re.sub(r'/\*.*?\*/', '', content, flags=re.DOTALL)\<close>: at the leftmost
  \<open>/*\<close> that has a \<open>*/\<close> after it, everything up to and including the first
  such \<open>*/\<close> is removed, and the scan goes on behind it.
\<close>

fun find_block_end :: "ustring \<Rightarrow> ustring option" where
  "find_block_end [] = None"
| "find_block_end [c] = None"
| "find_block_end (c # d # s) =
     (if c = star \<and> d = slash then Some s else find_block_end (d # s))"

lemma find_block_end_length:
  "find_block_end s = Some r \<Longrightarrow> length r < length s"
  by (induction s arbitrary: r rule: find_block_end.induct) (auto split: if_splits)

function strip_block_comments :: "ustring \<Rightarrow> ustring" where
  "strip_block_comments [] = []"
| "strip_block_comments [c] = [c]"
| "strip_block_comments (c # d # s) =
     (if c = slash \<and> d = star
      then (case find_block_end s of
              Some rest \<Rightarrow> strip_block_comments rest
            | None \<Rightarrow> c # strip_block_comments (d # s))
      else c # strip_block_comments (d # s))"
  by pat_completeness auto
termination
  by (relation "measure length") (auto dest: find_block_end_length)

text \<open>
  \<^verbatim>\<open>re.sub(r'//.*?$', '', content, flags=re.MULTILINE)\<close>: from \<open>//\<close> to the
  end of the line; the newline itself stays.
\<close>

function strip_line_comments :: "ustring \<Rightarrow> ustring" where
  "strip_line_comments [] = []"
| "strip_line_comments [c] = [c]"
| "strip_line_comments (c # d # s) =
     (if c = slash \<and> d = slash
      then strip_line_comments (dropWhile (\<lambda>x. x \<noteq> nl) s)
      else c # strip_line_comments (d # s))"
  by pat_completeness auto
termination
  by (relation "measure length") (auto simp: less_Suc_eq_le intro: le_SucI length_dropWhile_le)

definition strip_comments :: "ustring \<Rightarrow> ustring" where
  "strip_comments content = strip_line_comments (strip_block_comments content)"

section \<open>The Field Extractor\<close>

text \<open>\<open>m.group(1) if m else None\<close> on the comment-stripped text.\<close>

definition search_value :: "bool \<Rightarrow> ustring \<Rightarrow> ustring \<Rightarrow> ustring option" where
  "search_value ic key content =
     map_option (\<lambda>(pre, g1, v, rest). v) (re_search_field ic key content)"

definition extract_name :: "ustring \<Rightarrow> ustring option" where
  "extract_name raw = search_value False name_key (strip_comments raw)"

definition extract_description :: "ustring \<Rightarrow> ustring option" where
  "extract_description raw = search_value False desc_key (strip_comments raw)"

definition extract_unique_id :: "ustring \<Rightarrow> ustring option" where
  "extract_unique_id raw = search_value True uniqueid_key (strip_comments raw)"

section \<open>The Language Classifier\<close>

text \<open>\<open>chinese_pattern.search\<close>: some character lies in U+4E00..U+9FFF.\<close>

definition has_chinese :: "ustring \<Rightarrow> bool" where
  "has_chinese s = list_ex (\<lambda>c. 19968 \<le> c \<and> c \<le> 40959) s"

text \<open>Python truthiness of an optional string: neither \<open>None\<close> nor empty.\<close>

fun truthy :: "ustring option \<Rightarrow> bool" where
  "truthy None = False"
| "truthy (Some s) = (s \<noteq> [])"

definition is_chinese :: "ustring option \<Rightarrow> ustring option \<Rightarrow> bool" where
  "is_chinese name description =
     (let c1 = (if truthy name \<and> has_chinese (the name) then True else False)
      in if truthy description \<and> has_chinese (the description) then True else c1)"

section \<open>The Field Patcher\<close>

text \<open>
  \<^verbatim>\<open>value.replace('\\', '\\\\').replace('"', '\\"')\<close>: \<open>str.replace\<close> of
  a single character, backslashes first and double quotes second.
\<close>

definition str_replace :: "nat \<Rightarrow> ustring \<Rightarrow> ustring \<Rightarrow> ustring" where
  "str_replace old new s = concat (map (\<lambda>c. if c = old then new else [c]) s)"

definition escape_value :: "ustring \<Rightarrow> ustring" where
  "escape_value v = str_replace dq [bsl, dq] (str_replace bsl [bsl, bsl] v)"

text \<open>
  The replacement argument of \<open>re.sub\<close> is a template: \<open>re\<close> parses it into
  literal characters and group references before any match is replaced, and
  raises \<open>re.error\<close> (or \<open>IndexError\<close>) on a template it cannot parse.
  \<open>parse_template\<close> follows the parser of the \<open>re\<close> module for a pattern
  with two unnamed groups; \<open>None\<close> stands for the exception.
\<close>

datatype titem = Lit nat | Grp nat

definition pattern_groups :: nat where
  "pattern_groups = 2"

definition octal_value :: "nat list \<Rightarrow> nat" where
  "octal_value ds = foldl (\<lambda>a d. 8 * a + (d - 48)) 0 ds"

definition decimal_value :: "nat list \<Rightarrow> nat" where
  "decimal_value ds = foldl (\<lambda>a d. 10 * a + (d - 48)) 0 ds"

definition tcons :: "titem \<Rightarrow> titem list option \<Rightarrow> titem list option" where
  "tcons x r = map_option (\<lambda>xs. x # xs) r"

definition grp_ref :: "nat \<Rightarrow> titem list option \<Rightarrow> titem list option" where
  "grp_ref n r = (if n \<le> pattern_groups then tcons (Grp n) r else None)"

text \<open>
  The escapes of a template other than group references: \<open>\a \b \f \n \r \t \v\<close>
  and the backslash itself; another ASCII letter is an error, and any other
  character stays behind its backslash.
\<close>

definition simple_escape :: "nat \<Rightarrow> ustring option" where
  "simple_escape e =
     (if e = 97 then Some [7] else if e = 98 then Some [8]
      else if e = 102 then Some [12] else if e = 110 then Some [10]
      else if e = 114 then Some [13] else if e = 116 then Some [9]
      else if e = 118 then Some [11] else if e = bsl then Some [bsl]
      else if (65 \<le> e \<and> e \<le> 90) \<or> (97 \<le> e \<and> e \<le> 122) then None
      else Some [bsl, e])"

function parse_template :: "ustring \<Rightarrow> titem list option" where
  "parse_template [] = Some []"
| "parse_template (c # s) =
     (if c \<noteq> bsl then tcons (Lit c) (parse_template s)
      else (case s of
          [] \<Rightarrow> None
        | e # s1 \<Rightarrow>
            if e = 103 then
              (case s1 of
                 [] \<Rightarrow> None
               | lt # s2 \<Rightarrow>
                   if lt \<noteq> 60 then None
                   else (let name = takeWhile (\<lambda>x. x \<noteq> 62) s2;
                             after = dropWhile (\<lambda>x. x \<noteq> 62) s2
                         in if after = [] \<or> name = [] \<or> \<not> list_all is_digit name then None
                            else grp_ref (decimal_value name) (parse_template (drop 1 after))))
            else if e = 48 then
              (case s1 of
                 [] \<Rightarrow> tcons (Lit 0) (parse_template s1)
               | d2 # s2 \<Rightarrow>
                   if \<not> is_octdigit d2 then tcons (Lit 0) (parse_template s1)
                   else (case s2 of
                           [] \<Rightarrow> tcons (Lit (octal_value [d2])) (parse_template s2)
                         | d3 # s3 \<Rightarrow>
                             if \<not> is_octdigit d3
                             then tcons (Lit (octal_value [d2])) (parse_template s2)
                             else tcons (Lit (octal_value [d2, d3] mod 256)) (parse_template s3)))
            else if is_digit e then
              (case s1 of
                 [] \<Rightarrow> grp_ref (decimal_value [e]) (parse_template s1)
               | d2 # s2 \<Rightarrow>
                   if \<not> is_digit d2 then grp_ref (decimal_value [e]) (parse_template s1)
                   else (case s2 of
                           [] \<Rightarrow> grp_ref (decimal_value [e, d2]) (parse_template s2)
                         | d3 # s3 \<Rightarrow>
                             if is_octdigit e \<and> is_octdigit d2 \<and> is_octdigit d3
                             then (if octal_value [e, d2, d3] > 255 then None
                                   else tcons (Lit (octal_value [e, d2, d3])) (parse_template s3))
                             else grp_ref (decimal_value [e, d2]) (parse_template s2)))
            else (case simple_escape e of
                    None \<Rightarrow> None
                  | Some lit \<Rightarrow> map_option (\<lambda>xs. map Lit lit @ xs) (parse_template s1))))"
  by pat_completeness auto
termination
  by (relation "measure length")
     (auto simp: less_Suc_eq_le intro!: le_SucI length_dropWhile_le
           intro: order_trans [OF diff_le_self length_dropWhile_le])

text \<open>
  Filling a parsed template in for one match: group 0 is the whole match,
  group 1 the text through the opening quote of the value and group 2 the
  closing quote.
\<close>

definition expand_template :: "titem list \<Rightarrow> ustring \<Rightarrow> ustring \<Rightarrow> ustring \<Rightarrow> ustring" where
  "expand_template items g0 g1 g2 =
     concat (map (\<lambda>it. case it of
                          Lit c \<Rightarrow> [c]
                        | Grp n \<Rightarrow> if n = 0 then g0 else if n = 1 then g1 else g2) items)"

text \<open>
  \<open>re.sub\<close> with a parsed template: every match of the field pattern, from
  left to right and without overlap, is replaced by the filled-in template; the
  text between matches is copied.
\<close>

lemma match_literal_split:
  "match_literal ic p s = Some r \<Longrightarrow>
     \<exists>k. s = k @ r \<and> length k = length p \<and> list_all2 (chr_match ic) p k"
proof (induction ic p s rule: match_literal.induct)
  case (1 ic s)
  then show ?case by simp
next
  case (2 ic p ps)
  then show ?case by simp
next
  case (3 ic p ps c s)
  then have m: "chr_match ic p c" and r: "match_literal ic ps s = Some r"
    by (auto split: if_splits)
  from "3.IH" [OF m r] obtain k where "s = k @ r" "length k = length ps" "list_all2 (chr_match ic) ps k"
    by blast
  with m have "c # s = (c # k) @ r \<and> length (c # k) = length (p # ps) \<and> list_all2 (chr_match ic) (p # ps) (c # k)"
    by simp
  then show ?case by blast
qed

lemma match_field_at_split:
  assumes "match_field_at ic key s = Some (g1, v, rest)"
  shows "\<exists>k w1 w2. s = g1 @ v @ dq # rest \<and> g1 = k @ w1 @ colon # w2 @ [dq]
           \<and> match_literal ic (dq # key @ [dq]) (k @ w1 @ colon # w2 @ dq # v @ dq # rest)
               = Some (w1 @ colon # w2 @ dq # v @ dq # rest)
           \<and> list_all is_space w1 \<and> list_all is_space w2 \<and> dq \<notin> set v"
proof -
  from assms obtain s1 where s1: "match_literal ic (dq # key @ [dq]) s = Some s1"
    by (auto simp: match_field_at_def split: option.splits)
  from assms s1 obtain s2 where s2: "dropWhile is_space s1 = colon # s2"
    by (auto simp: match_field_at_def split: option.splits list.splits if_splits)
  from assms s1 s2 obtain s3 where s3: "dropWhile is_space s2 = dq # s3"
    by (auto simp: match_field_at_def split: option.splits list.splits if_splits)
  from assms s1 s2 s3 obtain e where e: "dropWhile (\<lambda>x. x \<noteq> dq) s3 = e # rest"
    and g1: "g1 = take (length s - length s3) s" and v: "v = takeWhile (\<lambda>x. x \<noteq> dq) s3"
    by (auto simp: match_field_at_def split: option.splits list.splits if_splits)
  from e have "e = dq" using hd_dropWhile [of "\<lambda>x. x \<noteq> dq" s3] by auto
  define w1 where "w1 = takeWhile is_space s1"
  define w2 where "w2 = takeWhile is_space s2"
  from match_literal_split [OF s1] obtain k where k: "s = k @ s1" by blast
  have e1: "s1 = w1 @ colon # s2" unfolding w1_def using s2 takeWhile_dropWhile_id [of is_space s1] by simp
  have e2: "s2 = w2 @ dq # s3" unfolding w2_def using s3 takeWhile_dropWhile_id [of is_space s2] by simp
  have e3: "s3 = v @ dq # rest" unfolding v using e \<open>e = dq\<close> takeWhile_dropWhile_id [of "\<lambda>x. x \<noteq> dq" s3] by simp
  have sdec: "s = (k @ w1 @ colon # w2 @ [dq]) @ s3" using k e1 e2 by simp
  have "length s - length s3 = length (k @ w1 @ colon # w2 @ [dq])" using sdec by simp
  then have g1': "g1 = k @ w1 @ colon # w2 @ [dq]" unfolding g1 using sdec by simp
  have "list_all is_space w1" "list_all is_space w2" unfolding w1_def w2_def
    by (simp_all add: list_all_iff) (auto dest: set_takeWhileD)
  moreover have "dq \<notin> set v" unfolding v by (auto dest: set_takeWhileD)
  moreover have "s = g1 @ v @ dq # rest" using sdec g1' e3 by simp
  moreover have "match_literal ic (dq # key @ [dq]) (k @ w1 @ colon # w2 @ dq # v @ dq # rest)
               = Some (w1 @ colon # w2 @ dq # v @ dq # rest)"
    using s1 k e1 e2 e3 by simp
  ultimately show ?thesis using g1' by blast
qed

lemma match_field_at_length:
  "match_field_at ic key s = Some (g1, v, rest) \<Longrightarrow> length rest < length s"
  by (drule match_field_at_split) auto

function sub_field :: "ustring \<Rightarrow> titem list \<Rightarrow> ustring \<Rightarrow> ustring" where
  "sub_field key items [] = []"
| "sub_field key items (c # s) =
     (case match_field_at False key (c # s) of
        Some (g1, v, rest) \<Rightarrow>
          expand_template items (g1 @ v @ [dq]) g1 [dq] @ sub_field key items rest
      | None \<Rightarrow> c # sub_field key items s)"
  by pat_completeness auto
termination
  by (relation "measure (\<lambda>(key, items, s). length s)") (auto dest: match_field_at_length)

datatype py_error = ReError | OSError | UnicodeDecodeError

definition re_sub_field :: "ustring \<Rightarrow> ustring \<Rightarrow> ustring \<Rightarrow> py_error + ustring" where
  "re_sub_field key repl content =
     (case parse_template repl of
        None \<Rightarrow> Inl ReError
      | Some items \<Rightarrow> Inr (sub_field key items content))"

text \<open>
  One \<open>if mod_data.get(...)\<close> block of the restore script, for the field
  \<open>key\<close>: the state is the text and the \<open>updated\<close> flag. The replacement
  template is \<^verbatim>\<open>r'\1' + escaped + r'\2'\<close>.
\<close>

definition update_field ::
  "ustring \<Rightarrow> ustring option \<Rightarrow> ustring \<times> bool \<Rightarrow> py_error + ustring \<times> bool" where
  "update_field key val st =
     (case st of (content, updated) \<Rightarrow>
        if truthy val then
          (let escaped = escape_value (the val) in
           if re_search_field False key content \<noteq> None then
             (case re_sub_field key ([bsl, 49] @ escaped @ [bsl, 50]) content of
                Inl e \<Rightarrow> Inl e
              | Inr content' \<Rightarrow> Inr (content', True))
           else Inr (content, updated))
        else Inr (content, updated))"

text \<open>
  The Field Patcher of the specification, \<open>patch(text, fieldName, newValue)\<close>,
  is one such block started with \<open>changed = False\<close>.
\<close>

definition patch :: "ustring \<Rightarrow> ustring \<Rightarrow> ustring \<Rightarrow> py_error + ustring \<times> bool" where
  "patch content key new_value = update_field key (Some new_value) (content, False)"

section \<open>The Encoding Reader\<close>

type_synonym byte = "8 word"

definition is_cont :: "nat \<Rightarrow> bool" where
  "is_cont b \<longleftrightarrow> 128 \<le> b \<and> b \<le> 191"

definition second_ok :: "nat \<Rightarrow> nat \<Rightarrow> bool" where
  "second_ok b b2 =
     (if b = 224 then 160 \<le> b2 \<and> b2 \<le> 191
      else if b = 237 then 128 \<le> b2 \<and> b2 \<le> 159
      else if b = 240 then 144 \<le> b2 \<and> b2 \<le> 191
      else if b = 244 then 128 \<le> b2 \<and> b2 \<le> 143
      else is_cont b2)"

text \<open>
  \<open>codecs.open(...).read()\<close> with a UTF-8 codec: the stream reader decodes
  strictly (\<open>None\<close> is \<open>UnicodeDecodeError\<close>), except that a sequence cut off
  by the end of the file is left undecoded without an error when the bytes
  present can start a sequence; for a cut-off sequence CPython does not apply
  the surrogate bound to the byte after \<open>0xED\<close>.
\<close>

definition second_ok_cut :: "nat \<Rightarrow> nat \<Rightarrow> bool" where
  "second_ok_cut b b2 = (if b = 237 then is_cont b2 else second_ok b b2)"

fun utf8_decode :: "nat list \<Rightarrow> ustring option" where
  "utf8_decode [] = Some []"
| "utf8_decode (b # bs) =
     (if b < 128 then map_option (\<lambda>r. b # r) (utf8_decode bs)
      else if 194 \<le> b \<and> b \<le> 223 then
        (case bs of
           [] \<Rightarrow> Some []
         | b2 # r2 \<Rightarrow>
             if \<not> is_cont b2 then None
             else map_option (\<lambda>r. ((b - 192) * 64 + (b2 - 128)) # r) (utf8_decode r2))
      else if 224 \<le> b \<and> b \<le> 239 then
        (case bs of
           [] \<Rightarrow> Some []
         | b2 # r2 \<Rightarrow>
             (case r2 of
                [] \<Rightarrow> if second_ok_cut b b2 then Some [] else None
              | b3 # r3 \<Rightarrow>
                  if \<not> second_ok b b2 \<or> \<not> is_cont b3 then None
                  else map_option
                         (\<lambda>r. ((b - 224) * 4096 + (b2 - 128) * 64 + (b3 - 128)) # r)
                         (utf8_decode r3)))
      else if 240 \<le> b \<and> b \<le> 244 then
        (case bs of
           [] \<Rightarrow> Some []
         | b2 # r2 \<Rightarrow>
             if \<not> second_ok b b2 then None
             else (case r2 of
                     [] \<Rightarrow> Some []
                   | b3 # r3 \<Rightarrow>
                       if \<not> is_cont b3 then None
                       else (case r3 of
                               [] \<Rightarrow> Some []
                             | b4 # r4 \<Rightarrow>
                                 if \<not> is_cont b4 then None
                                 else map_option
                                        (\<lambda>r. ((b - 240) * 262144 + (b2 - 128) * 4096
                                               + (b3 - 128) * 64 + (b4 - 128)) # r)
                                        (utf8_decode r4))))
      else None)"

text \<open>
  The \<open>utf-8-sig\<close> stream reader: a leading byte-order mark is dropped; an
  input shorter than the mark that is a prefix of it is held back undecoded.
\<close>

definition bom_utf8 :: "nat list" where
  "bom_utf8 = [239, 187, 191]"

definition utf8_sig_decode :: "nat list \<Rightarrow> ustring option" where
  "utf8_sig_decode bs =
     (if length bs < 3 \<and> take (length bs) bom_utf8 = bs then Some []
      else if take 3 bs = bom_utf8 then utf8_decode (drop 3 bs)
      else utf8_decode bs)"

text \<open>
  The built-in \<open>open(..., 'r', encoding='latin-1')\<close>: every byte is the code
  point of its value, and text mode turns \<open>\r\n\<close> and \<open>\r\<close> into \<open>\n\<close>.
\<close>

fun universal_newlines :: "ustring \<Rightarrow> ustring" where
  "universal_newlines [] = []"
| "universal_newlines [c] = [if c = cr then nl else c]"
| "universal_newlines (c # d # s) =
     (if c = cr \<and> d = nl then nl # universal_newlines s
      else if c = cr then nl # universal_newlines (d # s)
      else c # universal_newlines (d # s))"

definition latin1_decode :: "byte list \<Rightarrow> ustring option" where
  "latin1_decode bs = Some (map unat bs)"

text \<open>
  The nested \<open>try\<close>/\<open>except UnicodeDecodeError\<close> of both scripts; an error of
  the last attempt is not caught here.
\<close>

definition decode_content :: "byte list \<Rightarrow> py_error + ustring" where
  "decode_content bs =
     (case utf8_decode (map unat bs) of
        Some content \<Rightarrow> Inr content
      | None \<Rightarrow>
          (case utf8_sig_decode (map unat bs) of
             Some content \<Rightarrow> Inr content
           | None \<Rightarrow>
               (case latin1_decode bs of
                  Some content \<Rightarrow> Inr (universal_newlines content)
                | None \<Rightarrow> Inl UnicodeDecodeError)))"

text \<open>
  A manifest file on disk: absent, present but not openable, or its bytes.
  Opening raises \<open>OSError\<close> in the first two cases.
\<close>

datatype manifest_file = Missing | Unreadable | Bytes "byte list"

fun read_manifest :: "manifest_file \<Rightarrow> py_error + ustring" where
  "read_manifest Missing = Inl OSError"
| "read_manifest Unreadable = Inl OSError"
| "read_manifest (Bytes bs) = decode_content bs"

section \<open>The update URL\<close>

text \<open>
  \<^verbatim>\<open>"UpdateKeys"\s*:\s*\[(.*?)\]\<close> with \<open>re.DOTALL\<close>, matched at the start
  of \<open>s\<close>: the captured group runs to the first closing bracket.
\<close>

definition match_updatekeys_at :: "ustring \<Rightarrow> ustring option" where
  "match_updatekeys_at s =
     (case match_literal False (dq # updatekeys_key @ [dq]) s of
        None \<Rightarrow> None
      | Some s1 \<Rightarrow>
          (case dropWhile is_space s1 of
             [] \<Rightarrow> None
           | c # s2 \<Rightarrow>
               if c \<noteq> colon then None
               else (case dropWhile is_space s2 of
                       [] \<Rightarrow> None
                     | b # s3 \<Rightarrow>
                         if b \<noteq> lbrack then None
                         else if rbrack \<in> set s3
                         then Some (takeWhile (\<lambda>x. x \<noteq> rbrack) s3)
                         else None)))"

fun search_updatekeys :: "ustring \<Rightarrow> ustring option" where
  "search_updatekeys [] = None"
| "search_updatekeys (c # s) =
     (case match_updatekeys_at (c # s) of
        Some g \<Rightarrow> Some g
      | None \<Rightarrow> search_updatekeys s)"

text \<open>
  \<^verbatim>\<open>"Nexus:(\d+)"\<close>. The class \<open>\d\<close> of a \<open>str\<close> pattern is the set of
  Unicode decimal digits of the running Python; it is the parameter \<open>dec\<close>
  (it holds \<open>0\<close>..\<open>9\<close> and not the double quote).
\<close>

definition nexus_key :: ustring where
  "nexus_key = ustr ''Nexus:''"

definition match_nexus_at :: "(nat \<Rightarrow> bool) \<Rightarrow> ustring \<Rightarrow> ustring option" where
  "match_nexus_at dec s =
     (case match_literal False (dq # nexus_key) s of
        None \<Rightarrow> None
      | Some s1 \<Rightarrow>
          (case dropWhile dec s1 of
             [] \<Rightarrow> None
           | q # s2 \<Rightarrow>
               if q = dq \<and> takeWhile dec s1 \<noteq> [] then Some (takeWhile dec s1) else None))"

fun search_nexus :: "(nat \<Rightarrow> bool) \<Rightarrow> ustring \<Rightarrow> ustring option" where
  "search_nexus dec [] = None"
| "search_nexus dec (c # s) =
     (case match_nexus_at dec (c # s) of
        Some g \<Rightarrow> Some g
      | None \<Rightarrow> search_nexus dec s)"

definition extract_nurl :: "(nat \<Rightarrow> bool) \<Rightarrow> ustring \<Rightarrow> ustring option" where
  "extract_nurl dec content =
     (case search_updatekeys content of
        None \<Rightarrow> None
      | Some updatekeys_content \<Rightarrow>
          (case search_nexus dec updatekeys_content of
             None \<Rightarrow> None
           | Some nexus_id \<Rightarrow>
               Some (ustr ''https://www.nexusmods.com/stardewvalley/mods/'' @ nexus_id)))"

section \<open>The Scan Orchestrator\<close>

text \<open>
  One entry of \<open>xlgChineseBack.json\<close>. \<open>IsChinese\<close> is optional because the
  restore script accepts entries without it.
\<close>

record mod_record =
  UniqueID :: ustring
  Name :: "ustring option"
  Description :: "ustring option"
  Path :: ustring
  IsChinese :: "bool option"
  Nurl :: "ustring option"

text \<open>
  A manifest found by \<open>os.walk\<close>: the name of its folder, the path of the
  folder relative to the root, and the file.
\<close>

record manifest_entry =
  mod_folder :: ustring
  relative_path :: ustring
  disk_file :: manifest_file

record scan_state =
  translations_data :: "ustring \<rightharpoonup> mod_record"
  success_count :: nat
  error_count :: nat

definition scan_init :: scan_state where
  "scan_init = \<lparr>translations_data = Map.empty, success_count = 0, error_count = 0\<rparr>"

text \<open>The body of the loop over the manifests, with its \<open>except Exception\<close>.\<close>

definition scan_manifest :: "(nat \<Rightarrow> bool) \<Rightarrow> scan_state \<Rightarrow> manifest_entry \<Rightarrow> scan_state" where
  "scan_manifest dec st m =
     (case read_manifest (disk_file m) of
        Inl e \<Rightarrow> st\<lparr>error_count := error_count st + 1\<rparr>
      | Inr raw \<Rightarrow>
          (let content = strip_comments raw;
               name = search_value False name_key content;
               description = search_value False desc_key content;
               uid = search_value True uniqueid_key content;
               unique_id = (if truthy uid then the uid else mod_folder m);
               nurl = extract_nurl dec content;
               chinese = is_chinese name description
           in if truthy name \<or> truthy description
              then st\<lparr>translations_data := (translations_data st)(relative_path m \<mapsto>
                          \<lparr>UniqueID = unique_id, Name = name, Description = description,
                           Path = relative_path m, IsChinese = Some chinese, Nurl = nurl\<rparr>),
                        success_count := success_count st + 1\<rparr>
              else st\<lparr>error_count := error_count st + 1\<rparr>))"

definition scan_all :: "(nat \<Rightarrow> bool) \<Rightarrow> manifest_entry list \<Rightarrow> scan_state" where
  "scan_all dec ms = foldl (scan_manifest dec) scan_init ms"

section \<open>The Restore Orchestrator\<close>






section \<open>Evaluation\<close>

text \<open>The definitions unfolded when a function is run on a concrete input.\<close>

lemmas eval_defs = ustr_def name_key_def desc_key_def uniqueid_key_def updatekeys_key_def
  nexus_key_def is_space_def is_digit_def is_octdigit_def ascii_lower_def chr_match_def
  match_field_at_def search_value_def extract_name_def extract_description_def
  extract_unique_id_def strip_comments_def str_replace_def escape_value_def
  pattern_groups_def octal_value_def decimal_value_def tcons_def grp_ref_def
  simple_escape_def expand_template_def re_sub_field_def update_field_def patch_def
  has_chinese_def is_chinese_def

lemmas scan_eval_defs = scan_all_def scan_init_def scan_manifest_def decode_content_def
  utf8_sig_decode_def bom_utf8_def latin1_decode_def is_cont_def second_ok_def
  second_ok_cut_def extract_nurl_def match_updatekeys_at_def match_nexus_at_def Let_def

section \<open>Properties of the Field Extractor\<close>

lemma re_search_field_split:
  "re_search_field ic key s = Some (pre, g1, v, rest) \<Longrightarrow>
     s = pre @ g1 @ v @ dq # rest \<and>
     match_field_at ic key (g1 @ v @ dq # rest) = Some (g1, v, rest)"
proof (induction s arbitrary: pre)
  case Nil
  then show ?case by simp
next
  case (Cons c s)
  show ?case
  proof (cases "match_field_at ic key (c # s)")
    case None
    with Cons.prems obtain pre' where p: "pre = c # pre'"
      and r: "re_search_field ic key s = Some (pre', g1, v, rest)"
      by auto
    from Cons.IH [OF r] p show ?thesis by simp
  next
    case (Some m)
    with Cons.prems have m: "m = (g1, v, rest)" and p: "pre = []" by auto
    from Some m have "match_field_at ic key (c # s) = Some (g1, v, rest)" by simp
    from this match_field_at_split [OF this] p show ?thesis by auto
  qed
qed

section \<open>Properties of the Language Classifier and the scan\<close>

text \<open>The characters of an optional string.\<close>

fun chars_of :: "ustring option \<Rightarrow> nat set" where
  "chars_of None = {}"
| "chars_of (Some s) = set s"

lemma has_chinese_iff: "has_chinese s \<longleftrightarrow> (\<exists>c. c \<in> set s \<and> 19968 \<le> c \<and> c \<le> 40959)"
  by (auto simp: has_chinese_def list_ex_iff)

lemma is_chinese_iff:
  "is_chinese name description \<longleftrightarrow>
     (\<exists>c. (c \<in> chars_of name \<or> c \<in> chars_of description) \<and> 19968 \<le> c \<and> c \<le> 40959)"
  by (cases name; cases description) (auto simp: is_chinese_def has_chinese_iff)

lemma scan_all_invariant:
  assumes step: "\<And>st m. (\<forall>k r. translations_data st k = Some r \<longrightarrow> P k r) \<Longrightarrow>
              (\<forall>k r. translations_data (scan_manifest dec st m) k = Some r \<longrightarrow> P k r)"
  shows "translations_data (scan_all dec ms) k = Some r \<Longrightarrow> P k r"
proof -
  have "\<forall>k r. translations_data (foldl (scan_manifest dec) scan_init ms) k = Some r \<longrightarrow> P k r"
  proof (induction ms rule: rev_induct)
    case Nil
    show ?case by (simp add: scan_init_def)
  next
    case (snoc m ms)
    from step [OF snoc.IH] show ?case by simp
  qed
  then show "translations_data (scan_all dec ms) k = Some r \<Longrightarrow> P k r"
    by (simp add: scan_all_def)
qed

lemma scan_manifest_store:
  "translations_data (scan_manifest dec st m) k = Some r \<Longrightarrow>
     translations_data st k = Some r \<or>
     (\<exists>raw. read_manifest (disk_file m) = Inr raw \<and> k = relative_path m \<and>
        r = \<lparr>UniqueID = (if truthy (extract_unique_id raw) then the (extract_unique_id raw)
                          else mod_folder m),
             Name = extract_name raw, Description = extract_description raw,
             Path = relative_path m,
             IsChinese = Some (is_chinese (extract_name raw) (extract_description raw)),
             Nurl = extract_nurl dec (strip_comments raw)\<rparr> \<and>
        (truthy (extract_name raw) \<or> truthy (extract_description raw)))"
  by (auto simp: scan_manifest_def Let_def extract_name_def extract_description_def
        extract_unique_id_def split: sum.splits if_splits)

lemma scan_all_chinese:
  assumes "translations_data (scan_all dec ms) k = Some r"
  shows "IsChinese r = Some (\<exists>c. (c \<in> chars_of (Name r) \<or> c \<in> chars_of (Description r))
                              \<and> 19968 \<le> c \<and> c \<le> 40959)"
proof -
  define P where "P = (\<lambda>(k::ustring) (r::mod_record). IsChinese r =
    Some (\<exists>c. (c \<in> chars_of (Name r) \<or> c \<in> chars_of (Description r)) \<and> 19968 \<le> c \<and> c \<le> 40959))"
  have step: "\<forall>k r. translations_data (scan_manifest dec st m) k = Some r \<longrightarrow> P k r"
    if inv: "\<forall>k r. translations_data st k = Some r \<longrightarrow> P k r" for st m
  proof (intro allI impI)
    fix k r
    assume "translations_data (scan_manifest dec st m) k = Some r"
    from scan_manifest_store [OF this] inv show "P k r"
      unfolding P_def by (auto simp: is_chinese_iff)
  qed
  from scan_all_invariant [of P dec ms k r, OF step assms] show ?thesis
    unfolding P_def by simp
qed

lemma scan_all_content:
  assumes "translations_data (scan_all dec ms) k = Some r"
  shows "(truthy (Name r) \<or> truthy (Description r)) \<and> Path r = k"
proof -
  define P where "P = (\<lambda>(k::ustring) (r::mod_record). (truthy (Name r) \<or> truthy (Description r)) \<and> Path r = k)"
  have step: "\<forall>k r. translations_data (scan_manifest dec st m) k = Some r \<longrightarrow> P k r"
    if inv: "\<forall>k r. translations_data st k = Some r \<longrightarrow> P k r" for st m
  proof (intro allI impI)
    fix k r
    assume "translations_data (scan_manifest dec st m) k = Some r"
    from scan_manifest_store [OF this] inv show "P k r"
      unfolding P_def by auto
  qed
  from scan_all_invariant [of P dec ms k r, OF step assms] show ?thesis
    unfolding P_def by simp
qed

text \<open>
  Claim C8. \<open>IsChinese\<close> is true exactly when the extracted name or the
  extracted description holds a character from U+4E00 to U+9FFF, for the
  classifier and for every record of a scan; the name
  U+6D4B U+8BD5 U+6A21 U+7EC4 classifies as true, and \<open>Test Mod\<close> with
  \<open>A test\<close> as false.
\<close>

theorem localization_classification:
  "(is_chinese name description \<longleftrightarrow>
      (\<exists>c. (c \<in> chars_of name \<or> c \<in> chars_of description) \<and> 19968 \<le> c \<and> c \<le> 40959)) \<and>
   (translations_data (scan_all dec ms) k = Some r \<longrightarrow>
      IsChinese r = Some (\<exists>c. (c \<in> chars_of (Name r) \<or> c \<in> chars_of (Description r))
                              \<and> 19968 \<le> c \<and> c \<le> 40959)) \<and>
   is_chinese (Some [27979, 35797, 27169, 32452]) description \<and>
   \<not> is_chinese (Some (ustr ''Test Mod'')) (Some (ustr ''A test''))"
proof -
  have a: "is_chinese (Some [27979, 35797, 27169, 32452]) description"
    by (cases description) (simp_all add: is_chinese_def has_chinese_def)
  have b: "\<not> is_chinese (Some (ustr ''Test Mod'')) (Some (ustr ''A test''))"
    by (simp add: eval_defs)
  from a b is_chinese_iff [of name description] scan_all_chinese [of dec ms k r]
  show ?thesis by blast
qed

definition chinese_entry :: manifest_entry where
  \<open>chinese_entry = \<lparr>mod_folder = ustr ''A'', relative_path = ustr ''mods/A'',
     disk_file = Bytes [123, 34, 78, 97, 109, 101, 34, 58, 34, 230, 181, 139, 34, 125]\<rparr>\<close>

theorem localization_classification_witness:
  \<open>translations_data (scan_all is_digit [chinese_entry]) (ustr ''mods/A'') =
     Some \<lparr>UniqueID = ustr ''A'', Name = Some [27979], Description = None,
           Path = ustr ''mods/A'', IsChinese = Some True, Nurl = None\<rparr> \<and>
   Some True = Some (\<exists>c. (c \<in> chars_of (Some [27979]) \<or> c \<in> chars_of None)
                        \<and> 19968 \<le> c \<and> c \<le> (40959::nat))\<close>
proof -
  have e: \<open>translations_data (scan_all is_digit [chinese_entry]) (ustr ''mods/A'') =
     Some \<lparr>UniqueID = ustr ''A'', Name = Some [27979], Description = None,
           Path = ustr ''mods/A'', IsChinese = Some True, Nurl = None\<rparr>\<close>
    by (simp add: chinese_entry_def scan_eval_defs eval_defs)
  from localization_classification [of None None is_digit "[chinese_entry]" \<open>ustr ''mods/A''\<close>
     \<open>\<lparr>UniqueID = ustr ''A'', Name = Some [27979], Description = None,
           Path = ustr ''mods/A'', IsChinese = Some True, Nurl = None\<rparr>\<close>] e
  show ?thesis by simp
qed

section \<open>Properties of the store, the restore policy and the Encoding Reader\<close>

definition empty_entry :: manifest_entry where
  \<open>empty_entry = \<lparr>mod_folder = ustr ''B'', relative_path = ustr ''mods/B'',
     disk_file = Bytes [123, 34, 78, 97, 109, 101, 34, 58, 32, 34, 34, 44, 32, 34, 68, 101, 115,
       99, 114, 105, 112, 116, 105, 111, 110, 34, 58, 32, 34, 34, 125]\<rparr>\<close>

text \<open>
  Claim C6, as stated, fails: a manifest whose \<open>Name\<close> and \<open>Description\<close>
  are both present and empty is extracted with neither field absent, and the
  scan inserts no record for it.
\<close>

theorem store_inclusion_counterexample:
  \<open>read_manifest (disk_file empty_entry) = Inr (ustr ''{"Name": "", "Description": ""}'') \<and>
   extract_name (ustr ''{"Name": "", "Description": ""}'') = Some [] \<and>
   extract_description (ustr ''{"Name": "", "Description": ""}'') = Some [] \<and>
   translations_data (scan_manifest is_digit scan_init empty_entry) (relative_path empty_entry)
     = None \<and>
   error_count (scan_manifest is_digit scan_init empty_entry) = 1\<close>
  by (simp add: empty_entry_def scan_eval_defs eval_defs)

text \<open>
  Claim C6, amended. A manifest whose name and description are each absent or
  empty is never inserted, and is counted in the error count; every other
  manifest that can be read produces one record, stored under its folder's
  path relative to the root. Every record of a finished scan has a non-empty
  name or description and is stored under its own path.
\<close>

theorem store_inclusion_amended:
  "(read_manifest (disk_file m) = Inr raw \<and> \<not> truthy (extract_name raw)
      \<and> \<not> truthy (extract_description raw) \<longrightarrow>
      translations_data (scan_manifest dec st m) = translations_data st \<and>
      error_count (scan_manifest dec st m) = error_count st + 1 \<and>
      success_count (scan_manifest dec st m) = success_count st) \<and>
   (read_manifest (disk_file m) = Inr raw
      \<and> (truthy (extract_name raw) \<or> truthy (extract_description raw)) \<longrightarrow>
      (\<exists>r. translations_data (scan_manifest dec st m)
               = (translations_data st)(relative_path m \<mapsto> r) \<and>
            Path r = relative_path m \<and> Name r = extract_name raw \<and>
            Description r = extract_description raw) \<and>
      success_count (scan_manifest dec st m) = success_count st + 1 \<and>
      error_count (scan_manifest dec st m) = error_count st) \<and>
   (translations_data (scan_all dec ms) k = Some r \<longrightarrow>
      (truthy (Name r) \<or> truthy (Description r)) \<and> Path r = k)"
proof -
  have a: "translations_data (scan_manifest dec st m) = translations_data st \<and>
      error_count (scan_manifest dec st m) = error_count st + 1 \<and>
      success_count (scan_manifest dec st m) = success_count st"
    if "read_manifest (disk_file m) = Inr raw" "\<not> truthy (extract_name raw)"
       "\<not> truthy (extract_description raw)"
    using that
    by (simp add: scan_manifest_def Let_def extract_name_def extract_description_def)
  have b: "(\<exists>r. translations_data (scan_manifest dec st m)
               = (translations_data st)(relative_path m \<mapsto> r) \<and>
            Path r = relative_path m \<and> Name r = extract_name raw \<and>
            Description r = extract_description raw) \<and>
      success_count (scan_manifest dec st m) = success_count st + 1 \<and>
      error_count (scan_manifest dec st m) = error_count st"
    if "read_manifest (disk_file m) = Inr raw"
       "truthy (extract_name raw) \<or> truthy (extract_description raw)"
    using that
    by (auto simp: scan_manifest_def Let_def extract_name_def extract_description_def)
  from a b scan_all_content [of dec ms k r] show ?thesis by blast
qed

theorem store_inclusion_amended_witness:
  \<open>read_manifest (disk_file empty_entry) = Inr (ustr ''{"Name": "", "Description": ""}'') \<and>
   translations_data (scan_manifest is_digit scan_init empty_entry) = translations_data scan_init \<and>
   read_manifest (disk_file chinese_entry) = Inr (ustr ''{"Name":"'' @ [27979] @ ustr ''"}'') \<and>
   truthy (extract_name (ustr ''{"Name":"'' @ [27979] @ ustr ''"}'')) \<and>
   success_count (scan_manifest is_digit scan_init chinese_entry) = success_count scan_init + 1 \<and>
   translations_data (scan_all is_digit [empty_entry, chinese_entry]) (ustr ''mods/A'') =
     Some \<lparr>UniqueID = ustr ''A'', Name = Some [27979], Description = None,
           Path = ustr ''mods/A'', IsChinese = Some True, Nurl = None\<rparr> \<and>
   truthy (Some [27979])\<close>
proof -
  have e1: \<open>read_manifest (disk_file empty_entry) = Inr (ustr ''{"Name": "", "Description": ""}'')\<close>
    by (simp add: empty_entry_def scan_eval_defs eval_defs)
  have e2: \<open>\<not> truthy (extract_name (ustr ''{"Name": "", "Description": ""}''))\<close>
    by (simp add: eval_defs)
  have e3: \<open>\<not> truthy (extract_description (ustr ''{"Name": "", "Description": ""}''))\<close>
    by (simp add: eval_defs)
  have c1: \<open>read_manifest (disk_file chinese_entry)
     = Inr (ustr ''{"Name":"'' @ [27979] @ ustr ''"}'')\<close>
    by (simp add: chinese_entry_def scan_eval_defs eval_defs)
  have c2: \<open>truthy (extract_name (ustr ''{"Name":"'' @ [27979] @ ustr ''"}''))\<close>
    by (simp add: eval_defs)
  have s: \<open>translations_data (scan_all is_digit [empty_entry, chinese_entry]) (ustr ''mods/A'') =
     Some \<lparr>UniqueID = ustr ''A'', Name = Some [27979], Description = None,
           Path = ustr ''mods/A'', IsChinese = Some True, Nurl = None\<rparr>\<close>
    by (simp add: empty_entry_def chinese_entry_def scan_eval_defs eval_defs)
  from store_inclusion_amended [of empty_entry \<open>ustr ''{"Name": "", "Description": ""}''\<close>
      is_digit scan_init "[empty_entry, chinese_entry]" \<open>ustr ''mods/A''\<close>
      \<open>\<lparr>UniqueID = ustr ''A'', Name = Some [27979], Description = None,
           Path = ustr ''mods/A'', IsChinese = Some True, Nurl = None\<rparr>\<close>] e1 e2 e3 s
  have p1: "translations_data (scan_manifest is_digit scan_init empty_entry)
      = translations_data scan_init" by blast
  from store_inclusion_amended [of chinese_entry \<open>ustr ''{"Name":"'' @ [27979] @ ustr ''"}''\<close>
      is_digit scan_init "[]" "[]" undefined] c1 c2
  have p2: "success_count (scan_manifest is_digit scan_init chinese_entry)
      = success_count scan_init + 1" by blast
  from e1 p1 c1 c2 p2 s show ?thesis by simp
qed




text \<open>
  Claim C9. Reading the bytes of a manifest never fails: UTF-8 is tried first,
  UTF-8 with a byte-order mark second, and latin-1, which decodes every byte
  sequence, last; the first success is returned. Reading fails only when the
  file cannot be opened.
\<close>

theorem encoding_reader_total:
  "(\<exists>content. read_manifest (Bytes bs) = Inr content) \<and>
   latin1_decode bs \<noteq> None \<and>
   (utf8_decode (map unat bs) = Some t \<longrightarrow> read_manifest (Bytes bs) = Inr t) \<and>
   (utf8_decode (map unat bs) = None \<and> utf8_sig_decode (map unat bs) = Some t \<longrightarrow>
      read_manifest (Bytes bs) = Inr t) \<and>
   (utf8_decode (map unat bs) = None \<and> utf8_sig_decode (map unat bs) = None \<longrightarrow>
      read_manifest (Bytes bs) = Inr (universal_newlines (map unat bs))) \<and>
   (read_manifest f = Inl e \<longrightarrow> (f = Missing \<or> f = Unreadable) \<and> e = OSError)"
proof -
  have tot: "\<exists>content. decode_content bs = Inr content" for bs
    by (simp add: decode_content_def latin1_decode_def split: option.splits)
  have "(f = Missing \<or> f = Unreadable) \<and> e = OSError" if "read_manifest f = Inl e"
  proof (cases f)
    case (Bytes bs')
    with that tot [of bs'] show ?thesis by auto
  qed (use that in auto)
  with tot [of bs] show ?thesis
    by (auto simp: decode_content_def latin1_decode_def)
qed

theorem encoding_reader_total_witness:
  \<open>utf8_decode (map unat [97, 255 :: byte]) = None \<and>
   utf8_sig_decode (map unat [97, 255 :: byte]) = None \<and>
   read_manifest (Bytes [97, 255]) = Inr [97, 255] \<and>
   utf8_decode (map unat [230, 181, 139 :: byte]) = Some [27979] \<and>
   read_manifest (Bytes [230, 181, 139]) = Inr [27979] \<and>
   read_manifest Missing = Inl OSError\<close>
proof -
  have a: \<open>utf8_decode (map unat [97, 255 :: byte]) = None\<close> by simp
  have b: \<open>utf8_sig_decode (map unat [97, 255 :: byte]) = None\<close>
    by (simp add: utf8_sig_decode_def bom_utf8_def)
  have c: \<open>utf8_decode (map unat [230, 181, 139 :: byte]) = Some [27979]\<close>
    by (simp add: is_cont_def second_ok_def)
  from encoding_reader_total [of "[97, 255]" "[97, 255]" Missing OSError] a b
  have r1: "read_manifest (Bytes [97, 255]) = Inr [97, 255]" by simp
  from encoding_reader_total [of "[230, 181, 139]" "[27979]" Missing OSError] c
  have r2: "read_manifest (Bytes [230, 181, 139]) = Inr [27979]" by blast
  from a b c r1 r2 show ?thesis by simp
qed

section \<open>Properties of the Field Patcher\<close>

text \<open>
  What the template writes for a value: the template parser turns the doubled
  backslashes of the escaped value back into single ones and keeps \<open>\"\<close>, so
  the written text is the value with every double quote escaped.
\<close>

definition quote_escaped :: "ustring \<Rightarrow> ustring" where
  "quote_escaped v = str_replace dq [bsl, dq] v"

lemma escape_value_Cons:
  "escape_value (c # v) =
     (if c = bsl then [bsl, bsl] else if c = dq then [bsl, dq] else [c]) @ escape_value v"
  by (simp add: escape_value_def str_replace_def)

lemma escape_value_Nil: "escape_value [] = []"
  by (simp add: escape_value_def str_replace_def)

lemma quote_escaped_Cons:
  "quote_escaped (c # v) = (if c = dq then [bsl, dq] else [c]) @ quote_escaped v"
  by (simp add: quote_escaped_def str_replace_def)

lemma parse_template_body:
  "parse_template (escape_value v @ [bsl, 50]) = Some (map Lit (quote_escaped v) @ [Grp 2])"
proof (induction v)
  case Nil
  show ?case
    by (simp add: escape_value_Nil quote_escaped_def str_replace_def is_digit_def
          grp_ref_def tcons_def decimal_value_def pattern_groups_def)
next
  case (Cons c v)
  consider "c = bsl" | "c = dq" | "c \<noteq> bsl" "c \<noteq> dq" by blast
  then show ?case
  proof cases
    case 1
    with Cons show ?thesis
      by (simp add: escape_value_Cons quote_escaped_Cons is_digit_def simple_escape_def)
  next
    case 2
    with Cons show ?thesis
      by (simp add: escape_value_Cons quote_escaped_Cons is_digit_def simple_escape_def)
  next
    case 3
    with Cons show ?thesis
      by (simp add: escape_value_Cons quote_escaped_Cons tcons_def)
  qed
qed

lemma parse_template_value:
  assumes "v \<noteq> []" "\<not> is_digit (hd v)"
  shows "parse_template ([bsl, 49] @ escape_value v @ [bsl, 50])
           = Some (Grp 1 # map Lit (quote_escaped v) @ [Grp 2])"
proof -
  from assms obtain c v' where v: "v = c # v'" and c: "\<not> is_digit c"
    by (cases v) auto
  have "\<exists>d r. escape_value v @ [bsl, 50] = d # r \<and> \<not> is_digit d"
  proof (cases "c = bsl \<or> c = dq")
    case True
    then have "escape_value v @ [bsl, 50] = bsl # tl (escape_value v @ [bsl, 50])"
      unfolding v by (auto simp: escape_value_Cons)
    moreover have "\<not> is_digit bsl" by (simp add: is_digit_def)
    ultimately show ?thesis by blast
  next
    case False
    then have "escape_value v @ [bsl, 50] = c # escape_value v' @ [bsl, 50]"
      unfolding v by (simp add: escape_value_Cons)
    with c show ?thesis by blast
  qed
  then obtain d r where e: "escape_value v @ [bsl, 50] = d # r" and d: "\<not> is_digit d"
    by blast
  have "parse_template (bsl # 49 # d # r) = grp_ref 1 (parse_template (d # r))"
    using d by (simp add: is_digit_def decimal_value_def)
  also have "\<dots> = Some (Grp 1 # map Lit (quote_escaped v) @ [Grp 2])"
    unfolding e [symmetric] parse_template_body
    by (simp add: grp_ref_def tcons_def pattern_groups_def)
  finally show ?thesis using e by simp
qed

lemma expand_template_value:
  "expand_template (Grp 1 # map Lit w @ [Grp 2]) g0 g1 g2 = g1 @ w @ g2"
  by (simp add: expand_template_def comp_def)

text \<open>
  The substitution with the template of a value that does not begin with a
  digit: the value of every match is replaced by \<open>w\<close>.
\<close>

definition replace_values :: "ustring \<Rightarrow> ustring \<Rightarrow> ustring \<Rightarrow> ustring" where
  "replace_values key w s = sub_field key (Grp 1 # map Lit w @ [Grp 2]) s"

lemma replace_values_Nil: "replace_values key w [] = []"
  by (simp add: replace_values_def)

lemma replace_values_match:
  "match_field_at False key (c # s) = Some (g1, v, rest) \<Longrightarrow>
     replace_values key w (c # s) = g1 @ w @ dq # replace_values key w rest"
  by (simp add: replace_values_def expand_template_def comp_def)

lemma replace_values_skip:
  "match_field_at False key (c # s) = None \<Longrightarrow>
     replace_values key w (c # s) = c # replace_values key w s"
  by (simp add: replace_values_def)

lemma replace_values_no_match:
  "re_search_field False key s = None \<Longrightarrow> replace_values key w s = s"
proof (induction s)
  case Nil
  show ?case by (rule replace_values_Nil)
next
  case (Cons c s)
  from Cons.prems have m: "match_field_at False key (c # s) = None"
    and r: "re_search_field False key s = None"
    by (auto split: option.splits)
  from replace_values_skip [OF m] Cons.IH [OF r] show ?case by simp
qed

lemma replace_values_first:
  "re_search_field False key s = Some (pre, g1, v, rest) \<Longrightarrow>
     replace_values key w s = pre @ g1 @ w @ dq # replace_values key w rest"
proof (induction s arbitrary: pre)
  case Nil
  then show ?case by simp
next
  case (Cons c s)
  show ?case
  proof (cases "match_field_at False key (c # s)")
    case None
    with Cons.prems obtain pre' where p: "pre = c # pre'"
      and r: "re_search_field False key s = Some (pre', g1, v, rest)"
      by auto
    from replace_values_skip [OF None] Cons.IH [OF r] p show ?thesis by simp
  next
    case (Some m)
    with Cons.prems have "m = (g1, v, rest)" "pre = []" by auto
    with Some replace_values_match [of key c s g1 v rest w] show ?thesis by simp
  qed
qed

lemma patch_text:
  assumes "V \<noteq> []" "\<not> is_digit (hd V)"
  shows "patch content key V =
     Inr (replace_values key (str_replace dq [bsl, dq] V) content,
          re_search_field False key content \<noteq> None)"
proof (cases "re_search_field False key content")
  case None
  with assms replace_values_no_match [OF None] show ?thesis
    by (simp add: patch_def update_field_def)
next
  case (Some m)
  from parse_template_value [OF assms]
  have "re_sub_field key ([bsl, 49] @ escape_value V @ [bsl, 50]) content
      = Inr (replace_values key (str_replace dq [bsl, dq] V) content)"
    by (simp add: re_sub_field_def replace_values_def quote_escaped_def)
  moreover from Some have "re_search_field False key content \<noteq> None" by simp
  ultimately show ?thesis using assms
    by (simp add: patch_def update_field_def)
qed

text \<open>
  Claim C2, as stated, fails: \<open>re.sub\<close> is called without a count, so every
  occurrence of the field is replaced, not only the first.
\<close>

theorem patch_first_only_counterexample:
  \<open>re_search_field False name_key (ustr ''"Name":"a","Name":"b"'') =
     Some ([], ustr ''"Name":"'', ustr ''a'', ustr '',"Name":"b"'') \<and>
   patch (ustr ''"Name":"a","Name":"b"'') name_key (ustr ''x'') =
     Inr (ustr ''"Name":"x","Name":"x"'', True) \<and>
   ustr ''"Name":"x","Name":"x"'' \<noteq> ustr ''"Name":"x","Name":"b"''\<close>
  by (simp add: eval_defs)

text \<open>
  Claim C2, amended. For a non-empty new value that does not begin with a
  digit: if no occurrence of the field matches, the text is returned
  unmodified with \<open>changed = False\<close>; otherwise the text before the first
  occurrence, its key, whitespace and colon stay as they are, its value is
  replaced by the new value with every double quote escaped, and the text
  after its closing quote is patched in the same way, so that every later
  occurrence is replaced as well.
\<close>

theorem patch_every_occurrence:
  assumes "V \<noteq> []" and "\<not> is_digit (hd V)"
  shows "(re_search_field False key content = None \<longrightarrow>
            patch content key V = Inr (content, False)) \<and>
         (re_search_field False key content = Some (pre, g1, v, rest) \<longrightarrow>
            content = pre @ g1 @ v @ dq # rest \<and>
            (\<exists>rest' changed. patch rest key V = Inr (rest', changed) \<and>
               patch content key V
                 = Inr (pre @ g1 @ str_replace dq [bsl, dq] V @ dq # rest', True)))"
proof (intro conjI impI)
  assume n: "re_search_field False key content = None"
  from n replace_values_no_match [OF n] show "patch content key V = Inr (content, False)"
    by (simp add: patch_text [OF assms])
next
  assume s: "re_search_field False key content = Some (pre, g1, v, rest)"
  from re_search_field_split [OF s] show "content = pre @ g1 @ v @ dq # rest" by simp
  from s replace_values_first [OF s]
  have "patch content key V
      = Inr (pre @ g1 @ str_replace dq [bsl, dq] V @ dq
              # replace_values key (str_replace dq [bsl, dq] V) rest, True)"
    by (simp add: patch_text [OF assms])
  with patch_text [OF assms, of rest key]
  show "\<exists>rest' changed. patch rest key V = Inr (rest', changed) \<and>
      patch content key V = Inr (pre @ g1 @ str_replace dq [bsl, dq] V @ dq # rest', True)"
    by blast
qed

theorem patch_every_occurrence_witness:
  \<open>ustr ''x"y'' \<noteq> [] \<and> \<not> is_digit (hd (ustr ''x"y'')) \<and>
   re_search_field False name_key (ustr ''{"Name": "a", "Name":"b"}'') =
     Some (ustr ''{'', ustr ''"Name": "'', ustr ''a'', ustr '', "Name":"b"}'') \<and>
   patch (ustr '', "Name":"b"}'') name_key (ustr ''x"y'') =
     Inr (ustr '', "Name":"x'' @ [bsl] @ ustr ''"y"}'', True) \<and>
   patch (ustr ''{"Name": "a", "Name":"b"}'') name_key (ustr ''x"y'') =
     Inr (ustr ''{"Name": "x'' @ [bsl] @ ustr ''"y", "Name":"x'' @ [bsl] @ ustr ''"y"}'', True) \<and>
   re_search_field False name_key (ustr ''{"Nam": "a"}'') = None \<and>
   patch (ustr ''{"Nam": "a"}'') name_key (ustr ''x"y'') = Inr (ustr ''{"Nam": "a"}'', False)\<close>
proof -
  have h1: \<open>ustr ''x"y'' \<noteq> []\<close> by (simp add: eval_defs)
  have h2: \<open>\<not> is_digit (hd (ustr ''x"y''))\<close> by (simp add: eval_defs)
  have s: \<open>re_search_field False name_key (ustr ''{"Name": "a", "Name":"b"}'') =
     Some (ustr ''{'', ustr ''"Name": "'', ustr ''a'', ustr '', "Name":"b"}'')\<close>
    by (simp add: eval_defs)
  have r: \<open>patch (ustr '', "Name":"b"}'') name_key (ustr ''x"y'') =
     Inr (ustr '', "Name":"x'' @ [bsl] @ ustr ''"y"}'', True)\<close>
    by (simp add: eval_defs)
  have n: \<open>re_search_field False name_key (ustr ''{"Nam": "a"}'') = None\<close>
    by (simp add: eval_defs)
  from patch_every_occurrence [OF h1 h2, of name_key \<open>ustr ''{"Name": "a", "Name":"b"}''\<close>
         \<open>ustr ''{''\<close> \<open>ustr ''"Name": "''\<close> \<open>ustr ''a''\<close> \<open>ustr '', "Name":"b"}''\<close>] s r
  have p: \<open>patch (ustr ''{"Name": "a", "Name":"b"}'') name_key (ustr ''x"y'') =
     Inr (ustr ''{"Name": "x'' @ [bsl] @ ustr ''"y", "Name":"x'' @ [bsl] @ ustr ''"y"}'', True)\<close>
    by (simp add: eval_defs)
  from patch_every_occurrence [OF h1 h2, of name_key \<open>ustr ''{"Nam": "a"}''\<close>] n
  have q: \<open>patch (ustr ''{"Nam": "a"}'') name_key (ustr ''x"y'') = Inr (ustr ''{"Nam": "a"}'', False)\<close>
    by simp
  from h1 h2 s r p n q show ?thesis by simp
qed

section \<open>The quote structure of a text\<close>

text \<open>
  The pieces of a text between its double quotes. A field pattern matches or
  not by the pieces behind a quote alone, and a substitution changes only the
  pieces that are values; this carries the proofs about repeated patching.
\<close>

fun qsplit :: "ustring \<Rightarrow> ustring list" where
  "qsplit [] = [[]]"
| "qsplit (c # s) =
     (if c = dq then [] # qsplit s else (c # hd (qsplit s)) # tl (qsplit s))"

lemma qsplit_not_Nil: "qsplit s \<noteq> []"
  by (induction s) auto

lemma qsplit_append_quote: "dq \<notin> set a \<Longrightarrow> qsplit (a @ dq # s) = a # qsplit s"
  by (induction a) auto

lemma qsplit_quote_free: "dq \<notin> set a \<Longrightarrow> qsplit a = [a]"
  by (induction a) auto

lemma qsplit_Cons2:
  "qsplit s = a # b # tl0 \<Longrightarrow> dq \<notin> set a \<and> (\<exists>x. s = a @ dq # x \<and> qsplit x = b # tl0)"
proof (induction s arbitrary: a)
  case Nil
  then show ?case by simp
next
  case (Cons c s)
  show ?case
  proof (cases "c = dq")
    case True
    with Cons.prems show ?thesis by auto
  next
    case False
    with Cons.prems have a: "a = c # hd (qsplit s)" and t: "tl (qsplit s) = b # tl0"
      by auto
    from t qsplit_not_Nil [of s] have "qsplit s = hd (qsplit s) # b # tl0"
      by (cases "qsplit s") auto
    from Cons.IH [OF this] obtain x where "dq \<notin> set (hd (qsplit s))"
      "s = hd (qsplit s) @ dq # x" "qsplit x = b # tl0" by blast
    with a False have "dq \<notin> set a \<and> c # s = a @ dq # x \<and> qsplit x = b # tl0" by auto
    then show ?thesis by blast
  qed
qed

definition is_sep :: "ustring \<Rightarrow> bool" where
  "is_sep sp = (case dropWhile is_space sp of
                  [] \<Rightarrow> False
                | c # r \<Rightarrow> c = colon \<and> list_all is_space r)"

lemma not_space_colon: "\<not> is_space colon"
  by (simp add: is_space_def)

lemma not_space_dq: "\<not> is_space dq"
  by (simp add: is_space_def)

lemma is_sep_iff:
  "is_sep sp \<longleftrightarrow> (\<exists>w1 w2. sp = w1 @ colon # w2 \<and> list_all is_space w1 \<and> list_all is_space w2)"
proof
  assume "is_sep sp"
  then obtain r where d: "dropWhile is_space sp = colon # r" and r: "list_all is_space r"
    by (auto simp: is_sep_def split: list.splits)
  have "sp = takeWhile is_space sp @ colon # r"
    using takeWhile_dropWhile_id [of is_space sp] d by simp
  moreover have "list_all is_space (takeWhile is_space sp)"
    by (simp add: list_all_iff) (auto dest: set_takeWhileD)
  ultimately show "\<exists>w1 w2. sp = w1 @ colon # w2 \<and> list_all is_space w1 \<and> list_all is_space w2"
    using r by blast
next
  assume "\<exists>w1 w2. sp = w1 @ colon # w2 \<and> list_all is_space w1 \<and> list_all is_space w2"
  then obtain w1 w2 where sp: "sp = w1 @ colon # w2" and w1: "list_all is_space w1"
    and w2: "list_all is_space w2" by blast
  from w1 have "dropWhile is_space (w1 @ colon # w2) = colon # w2"
    by (simp add: dropWhile_append3 list_all_iff not_space_colon)
  with w2 show "is_sep sp" by (simp add: is_sep_def sp)
qed

lemma is_sep_quote_free: "is_sep sp \<Longrightarrow> dq \<notin> set sp"
  using not_space_dq by (fastforce simp: is_sep_iff list_all_iff)

lemma match_literal_self: "match_literal False p (p @ x) = Some x"
  by (induction p) (auto simp: chr_match_def)

lemma match_literal_exact:
  "match_literal False p s = Some r \<Longrightarrow> s = p @ r"
  by (induction False p s rule: match_literal.induct) (auto simp: chr_match_def split: if_splits)

lemma match_field_at_shape:
  assumes "match_field_at False key s = Some (g1, v, rest)"
  shows "\<exists>sp. is_sep sp \<and> g1 = dq # key @ dq # sp @ [dq] \<and> s = g1 @ v @ dq # rest \<and> dq \<notin> set v"
proof -
  from match_field_at_split [OF assms] obtain k w1 w2 where
    s: "s = g1 @ v @ dq # rest" and g1: "g1 = k @ w1 @ colon # w2 @ [dq]"
    and m: "match_literal False (dq # key @ [dq]) (k @ w1 @ colon # w2 @ dq # v @ dq # rest)
               = Some (w1 @ colon # w2 @ dq # v @ dq # rest)"
    and w: "list_all is_space w1" "list_all is_space w2" and v: "dq \<notin> set v"
    by blast
  from match_literal_exact [OF m] have "k = dq # key @ [dq]" by simp
  with g1 have "g1 = dq # key @ dq # (w1 @ colon # w2) @ [dq]" by simp
  moreover from w have "is_sep (w1 @ colon # w2)" unfolding is_sep_iff by blast
  ultimately show ?thesis using s v by blast
qed

lemma match_field_at_built:
  assumes "is_sep sp" and "dq \<notin> set v"
  shows "match_field_at False key (dq # key @ dq # sp @ dq # v @ dq # rest)
           = Some (dq # key @ dq # sp @ [dq], v, rest)"
proof -
  from assms(1) obtain w1 w2 where sp: "sp = w1 @ colon # w2" and w1: "list_all is_space w1"
    and w2: "list_all is_space w2" unfolding is_sep_iff by blast
  have l: "match_literal False (dq # key @ [dq]) (dq # key @ dq # sp @ dq # v @ dq # rest)
      = Some (sp @ dq # v @ dq # rest)"
    using match_literal_self [of "dq # key @ [dq]" "sp @ dq # v @ dq # rest"] by simp
  have d1: "dropWhile is_space (sp @ dq # v @ dq # rest) = colon # w2 @ dq # v @ dq # rest"
    unfolding sp using w1 by (simp add: dropWhile_append3 list_all_iff not_space_colon)
  have d2: "dropWhile is_space (w2 @ dq # v @ dq # rest) = dq # v @ dq # rest"
    using w2 by (simp add: dropWhile_append3 list_all_iff not_space_dq)
  have d3: "dropWhile (\<lambda>x. x \<noteq> dq) (v @ dq # rest) = dq # rest"
    using assms(2) by (auto simp: dropWhile_append3)
  have t3: "takeWhile (\<lambda>x. x \<noteq> dq) (v @ dq # rest) = v"
    using assms(2) by (auto simp: takeWhile_tail)
  have len: "length (dq # key @ dq # sp @ dq # v @ dq # rest) - length (v @ dq # rest)
      = length (dq # key @ dq # sp @ [dq])" by simp
  have tk: "take (length (dq # key @ dq # sp @ [dq])) (dq # key @ dq # sp @ dq # v @ dq # rest)
      = dq # key @ dq # sp @ [dq]"
    using append_eq_conv_conj [of "dq # key @ dq # sp @ [dq]" "v @ dq # rest"
        "dq # key @ dq # sp @ dq # v @ dq # rest"]
    by simp
  show ?thesis
    unfolding match_field_at_def l option.case d1 list.case d2 d3 t3 len tk
    by simp
qed

fun head3 :: "'a list \<Rightarrow> 'a list" where
  "head3 (a # b # c # xs) = [a, b, c]"
| "head3 xs = xs"

lemma head3_Cons:
  "length Q' = length Q \<Longrightarrow> head3 Q' = head3 Q \<Longrightarrow> head3 (a # Q') = head3 (a # Q)"
  by (cases Q rule: head3.cases; cases Q' rule: head3.cases) simp_all

lemma head3_hd:
  "length Q' = length Q \<Longrightarrow> head3 Q' = head3 Q \<Longrightarrow> Q \<noteq> [] \<Longrightarrow> hd Q' = hd Q"
  by (cases Q rule: head3.cases; cases Q' rule: head3.cases) simp_all

lemma head3_tl:
  "length Q' = length Q \<Longrightarrow> head3 Q' = head3 Q \<Longrightarrow> Q \<noteq> [] \<Longrightarrow>
     head3 (x # tl Q') = head3 (x # tl Q)"
  by (cases Q rule: head3.cases; cases Q' rule: head3.cases) simp_all

lemma head3_shape:
  assumes "length Q = length (a # b # c # d # R)" and "head3 Q = [a, b, c]"
  shows "\<exists>d' R'. Q = a # b # c # d' # R'"
proof -
  from assms(1) obtain x1 x2 x3 x4 R' where "Q = x1 # x2 # x3 # x4 # R'"
    by (auto simp: length_Suc_conv)
  with assms(2) show ?thesis by simp
qed

lemma qsplit_replace_values:
  assumes w: "dq \<notin> set w" and key: "dq \<notin> set key"
  shows "length (qsplit (replace_values key w s)) = length (qsplit s) \<and>
         head3 (qsplit (replace_values key w s)) = head3 (qsplit s)"
proof (induction "length s" arbitrary: s rule: less_induct)
  case less
  show ?case
  proof (cases s)
    case Nil
    then show ?thesis by (simp add: replace_values_Nil)
  next
    case (Cons c s')
    show ?thesis
    proof (cases "match_field_at False key (c # s')")
      case None
      define Q where "Q = qsplit s'"
      define Q' where "Q' = qsplit (replace_values key w s')"
      have "length Q' = length Q \<and> head3 Q' = head3 Q"
        unfolding Q_def Q'_def using less [of s'] Cons by simp
      then have len: "length Q' = length Q" and h3: "head3 Q' = head3 Q" by simp_all
      have ne: "Q \<noteq> []" unfolding Q_def by (rule qsplit_not_Nil)
      have ne': "Q' \<noteq> []" unfolding Q'_def by (rule qsplit_not_Nil)
      have "length (qsplit (c # replace_values key w s')) = length (qsplit (c # s')) \<and>
         head3 (qsplit (c # replace_values key w s')) = head3 (qsplit (c # s'))"
      proof (cases "c = dq")
        case True
        with len head3_Cons [OF len h3, of "[]"] show ?thesis
          by (simp add: Q_def Q'_def)
      next
        case False
        from head3_hd [OF len h3 ne] head3_tl [OF len h3 ne, of "c # hd Q"] len ne ne' False
        show ?thesis by (simp add: Q_def Q'_def)
      qed
      with replace_values_skip [OF None] Cons show ?thesis by simp
    next
      case (Some m)
      obtain g1 v rest where m: "m = (g1, v, rest)" by (cases m) auto
      with Some have ma: "match_field_at False key (c # s') = Some (g1, v, rest)" by simp
      from match_field_at_shape [OF ma] obtain sp where sp: "is_sep sp"
        and g1: "g1 = dq # key @ dq # sp @ [dq]" and s: "c # s' = g1 @ v @ dq # rest"
        and v: "dq \<notin> set v" by blast
      from match_field_at_length [OF ma] Cons have "length rest < length s" by simp
      from less [OF this]
      have ih: "length (qsplit (replace_values key w rest)) = length (qsplit rest)" by simp
      have q1: "qsplit (c # s') = [] # key # sp # v # qsplit rest"
        unfolding s g1
        using qsplit_append_quote [OF key, of "sp @ dq # v @ dq # rest"]
          qsplit_append_quote [OF is_sep_quote_free [OF sp], of "v @ dq # rest"]
          qsplit_append_quote [OF v, of rest]
        by simp
      have q2: "qsplit (g1 @ w @ dq # replace_values key w rest)
          = [] # key # sp # w # qsplit (replace_values key w rest)"
        unfolding g1
        using qsplit_append_quote [OF key, of "sp @ dq # w @ dq # replace_values key w rest"]
          qsplit_append_quote [OF is_sep_quote_free [OF sp], of "w @ dq # replace_values key w rest"]
          qsplit_append_quote [OF w, of "replace_values key w rest"]
        by simp
      from replace_values_match [OF ma, of w] q1 q2 ih Cons show ?thesis
        by simp
    qed
  qed
qed

lemma match_survives_replace:
  assumes w: "dq \<notin> set w" and key: "dq \<notin> set key" and key': "dq \<notin> set key'"
    and m: "match_field_at False key' (c # replace_values key w s) = Some (g1, v, rest)"
  shows "\<exists>rest0. match_field_at False key' (c # s) = Some (g1, v, rest0)"
proof -
  from match_field_at_shape [OF m] obtain sp where sp: "is_sep sp"
    and g1: "g1 = dq # key' @ dq # sp @ [dq]"
    and s: "c # replace_values key w s = g1 @ v @ dq # rest" and v: "dq \<notin> set v" by blast
  from s g1 have c: "c = dq" and r: "replace_values key w s = key' @ dq # sp @ dq # v @ dq # rest"
    by simp_all
  have q: "qsplit (replace_values key w s) = key' # sp # v # qsplit rest"
    unfolding r
    using qsplit_append_quote [OF key', of "sp @ dq # v @ dq # rest"]
      qsplit_append_quote [OF is_sep_quote_free [OF sp], of "v @ dq # rest"]
      qsplit_append_quote [OF v, of rest]
    by simp
  obtain d R where dR: "qsplit rest = d # R"
    using qsplit_not_Nil [of rest] by (cases "qsplit rest") auto
  from qsplit_replace_values [OF w key, of s] q dR
  have len: "length (qsplit s) = length (key' # sp # v # d # R)"
    and h3: "head3 (qsplit s) = [key', sp, v]" by simp_all
  from head3_shape [OF len h3] obtain b tl0 where qs: "qsplit s = key' # sp # v # b # tl0"
    by blast
  from qsplit_Cons2 [OF qs] obtain x1 where x1: "s = key' @ dq # x1" "qsplit x1 = sp # v # b # tl0"
    by blast
  from qsplit_Cons2 [OF x1(2)] obtain x2 where x2: "x1 = sp @ dq # x2" "qsplit x2 = v # b # tl0"
    by blast
  from qsplit_Cons2 [OF x2(2)] obtain x3 where x3: "x2 = v @ dq # x3" by blast
  from match_field_at_built [OF sp v, of key' x3] c x1(1) x2(1) x3 g1
  show ?thesis by simp
qed

lemma no_match_after_replace:
  assumes "dq \<notin> set w" "dq \<notin> set key" "dq \<notin> set key'"
    and "match_field_at False key' (c # s) = None"
  shows "match_field_at False key' (c # replace_values key w s) = None"
proof (cases "match_field_at False key' (c # replace_values key w s)")
  case None
  then show ?thesis .
next
  case (Some m)
  obtain g1 v rest where "m = (g1, v, rest)" by (cases m) auto
  with Some match_survives_replace [OF assms(1-3), of c s g1 v rest] assms(4)
  show ?thesis by auto
qed

lemma match_after_replace:
  assumes w: "dq \<notin> set w"
    and m: "match_field_at False key (c # s) = Some (g1, v, rest)"
  shows "\<exists>c' s'. g1 @ w @ dq # x = c' # s' \<and>
           match_field_at False key (c' # s') = Some (g1, w, x)"
proof -
  from match_field_at_shape [OF m] obtain sp where sp: "is_sep sp"
    and g1: "g1 = dq # key @ dq # sp @ [dq]" by blast
  from match_field_at_built [OF sp w, of key x] g1
  have "match_field_at False key (dq # key @ dq # sp @ dq # w @ dq # x) = Some (g1, w, x)"
    by simp
  moreover have "g1 @ w @ dq # x = dq # key @ dq # sp @ dq # w @ dq # x"
    using g1 by simp
  ultimately show ?thesis by blast
qed

lemma replace_values_idem:
  assumes w: "dq \<notin> set w" and key: "dq \<notin> set key"
  shows "replace_values key w (replace_values key w s) = replace_values key w s"
proof (induction "length s" arbitrary: s rule: less_induct)
  case less
  show ?case
  proof (cases s)
    case Nil
    then show ?thesis by (simp add: replace_values_Nil)
  next
    case (Cons c s')
    show ?thesis
    proof (cases "match_field_at False key (c # s')")
      case None
      from no_match_after_replace [OF w key key None]
      have "replace_values key w (c # replace_values key w s')
          = c # replace_values key w (replace_values key w s')"
        by (rule replace_values_skip)
      with replace_values_skip [OF None, of w] less [of s'] Cons show ?thesis by simp
    next
      case (Some m)
      obtain g1 v rest where "m = (g1, v, rest)" by (cases m) auto
      with Some have ma: "match_field_at False key (c # s') = Some (g1, v, rest)" by simp
      from match_after_replace [OF w ma, of "replace_values key w rest"]
      obtain c' t where e: "g1 @ w @ dq # replace_values key w rest = c' # t"
        and m': "match_field_at False key (c' # t) = Some (g1, w, replace_values key w rest)"
        by blast
      from match_field_at_length [OF ma] Cons have "length rest < length s" by simp
      from less [OF this] replace_values_match [OF m', of w] e replace_values_match [OF ma, of w] Cons
      show ?thesis by simp
    qed
  qed
qed

lemma search_after_replace:
  assumes w: "dq \<notin> set w" and key: "dq \<notin> set key"
  shows "re_search_field False key s = Some (pre, g1, v, rest) \<Longrightarrow>
     re_search_field False key (replace_values key w s)
       = Some (pre, g1, w, replace_values key w rest)"
proof (induction s arbitrary: pre)
  case Nil
  then show ?case by simp
next
  case (Cons c s)
  show ?case
  proof (cases "match_field_at False key (c # s)")
    case None
    with Cons.prems obtain pre' where p: "pre = c # pre'"
      and r: "re_search_field False key s = Some (pre', g1, v, rest)"
      by auto
    from no_match_after_replace [OF w key key None] Cons.IH [OF r] p replace_values_skip [OF None, of w]
    show ?thesis by simp
  next
    case (Some m)
    with Cons.prems have m: "m = (g1, v, rest)" and p: "pre = []" by auto
    with Some have ma: "match_field_at False key (c # s) = Some (g1, v, rest)" by simp
    from match_after_replace [OF w ma, of "replace_values key w rest"]
    obtain c' t where e: "g1 @ w @ dq # replace_values key w rest = c' # t"
      and m': "match_field_at False key (c' # t) = Some (g1, w, replace_values key w rest)"
      by blast
    from replace_values_match [OF ma, of w] e m' p show ?thesis by simp
  qed
qed

lemma str_replace_absent: "old \<notin> set s \<Longrightarrow> str_replace old new s = s"
  by (induction s) (auto simp: str_replace_def)

lemma key_quote_free: "dq \<notin> set name_key" "dq \<notin> set desc_key"
  by (simp_all add: name_key_def desc_key_def ustr_def)

section \<open>Keys that ignore case, and the leftmost match\<close>

text \<open>
  \<open>kmatch ic key k\<close>: the text \<open>k\<close> is what the key \<open>key\<close> of a pattern matches,
  character by character; without \<open>re.IGNORECASE\<close> that is \<open>key\<close> itself.
\<close>

definition kmatch :: "bool \<Rightarrow> ustring \<Rightarrow> ustring \<Rightarrow> bool" where
  "kmatch ic key k = list_all2 (chr_match ic) key k"

lemma chr_match_dq: "chr_match ic dq c \<longleftrightarrow> c = dq"
  by (simp add: chr_match_def ascii_lower_def)

lemma chr_match_not_dq: "chr_match ic p c \<Longrightarrow> p \<noteq> dq \<Longrightarrow> c \<noteq> dq"
  by (auto simp: chr_match_def ascii_lower_def split: if_splits)

lemma kmatch_quote_free: "kmatch ic key k \<Longrightarrow> dq \<notin> set key \<Longrightarrow> dq \<notin> set k"
  unfolding kmatch_def
  by (induction key k rule: list_all2_induct) (auto dest: chr_match_not_dq)

lemma match_literal_append:
  "list_all2 (chr_match ic) p k \<Longrightarrow> match_literal ic p (k @ x) = Some x"
  by (induction p k rule: list_all2_induct) auto

lemma match_field_at_shape_ic:
  assumes "match_field_at ic key s = Some (g1, v, rest)"
  shows "\<exists>k sp. kmatch ic key k \<and> is_sep sp \<and> g1 = dq # k @ dq # sp @ [dq]
           \<and> s = g1 @ v @ dq # rest \<and> dq \<notin> set v"
proof -
  from assms obtain s1 where s1: "match_literal ic (dq # key @ [dq]) s = Some s1"
    by (auto simp: match_field_at_def split: option.splits)
  from match_literal_split [OF s1] obtain kk where kk: "s = kk @ s1"
    "list_all2 (chr_match ic) (dq # key @ [dq]) kk" by blast
  from kk(2) obtain c0 k c1 where kk3: "kk = c0 # k @ [c1]" and c0: "chr_match ic dq c0"
    and k: "list_all2 (chr_match ic) key k" and c1: "chr_match ic dq c1"
    by (auto simp: list_all2_Cons1 list_all2_append1 list_all2_Nil)
  from c0 c1 have q: "c0 = dq" "c1 = dq" by (simp_all add: chr_match_dq)
  from match_field_at_split [OF assms] obtain k' w1 w2 where
    s: "s = g1 @ v @ dq # rest" and g1: "g1 = k' @ w1 @ colon # w2 @ [dq]"
    and m: "match_literal ic (dq # key @ [dq]) (k' @ w1 @ colon # w2 @ dq # v @ dq # rest)
               = Some (w1 @ colon # w2 @ dq # v @ dq # rest)"
    and w: "list_all is_space w1" "list_all is_space w2" and v: "dq \<notin> set v"
    by blast
  from s g1 s1 m have s1': "s1 = w1 @ colon # w2 @ dq # v @ dq # rest" by simp
  from kk(1) s g1 s1' have "kk @ s1 = k' @ s1" by simp
  then have "k' = kk" by simp
  with g1 kk3 q have "g1 = dq # k @ dq # (w1 @ colon # w2) @ [dq]" by simp
  moreover from w have "is_sep (w1 @ colon # w2)" unfolding is_sep_iff by blast
  ultimately show ?thesis using s v k unfolding kmatch_def by blast
qed

lemma match_field_at_built_ic:
  assumes "kmatch ic key k" and "is_sep sp" and "dq \<notin> set v"
  shows "match_field_at ic key (dq # k @ dq # sp @ dq # v @ dq # rest)
           = Some (dq # k @ dq # sp @ [dq], v, rest)"
proof -
  from assms(2) obtain w1 w2 where sp: "sp = w1 @ colon # w2" and w1: "list_all is_space w1"
    and w2: "list_all is_space w2" unfolding is_sep_iff by blast
  have "list_all2 (chr_match ic) (dq # key @ [dq]) (dq # k @ [dq])"
    using assms(1) unfolding kmatch_def
    by (simp add: chr_match_dq list_all2_appendI)
  from match_literal_append [OF this, of "sp @ dq # v @ dq # rest"]
  have l: "match_literal ic (dq # key @ [dq]) (dq # k @ dq # sp @ dq # v @ dq # rest)
      = Some (sp @ dq # v @ dq # rest)" by simp
  have d1: "dropWhile is_space (sp @ dq # v @ dq # rest) = colon # w2 @ dq # v @ dq # rest"
    unfolding sp using w1 by (simp add: dropWhile_append3 list_all_iff not_space_colon)
  have d2: "dropWhile is_space (w2 @ dq # v @ dq # rest) = dq # v @ dq # rest"
    using w2 by (simp add: dropWhile_append3 list_all_iff not_space_dq)
  have d3: "dropWhile (\<lambda>x. x \<noteq> dq) (v @ dq # rest) = dq # rest"
    using assms(3) by (auto simp: dropWhile_append3)
  have t3: "takeWhile (\<lambda>x. x \<noteq> dq) (v @ dq # rest) = v"
    using assms(3) by (auto simp: takeWhile_tail)
  have len: "length (dq # k @ dq # sp @ dq # v @ dq # rest) - length (v @ dq # rest)
      = length (dq # k @ dq # sp @ [dq])" by simp
  have tk: "take (length (dq # k @ dq # sp @ [dq])) (dq # k @ dq # sp @ dq # v @ dq # rest)
      = dq # k @ dq # sp @ [dq]"
    using append_eq_conv_conj [of "dq # k @ dq # sp @ [dq]" "v @ dq # rest"
        "dq # k @ dq # sp @ dq # v @ dq # rest"]
    by simp
  show ?thesis
    unfolding match_field_at_def l option.case d1 list.case d2 d3 t3 len tk
    by simp
qed


lemma search_value_Cons:
  "search_value ic key (c # s) =
     (case match_field_at ic key (c # s) of
        Some (g1, v, rest) \<Rightarrow> Some v
      | None \<Rightarrow> search_value ic key s)"
  by (cases "re_search_field ic key s")
     (auto simp: search_value_def split: option.splits)


lemma search_value_built:
  assumes "list_all2 (chr_match ic) key k" and "list_all is_space w1" and "list_all is_space w2"
    and "dq \<notin> set v"
  shows "search_value ic key (dq # k @ dq # w1 @ colon # w2 @ dq # v @ dq # rest) = Some v"
proof -
  from assms(2,3) have sp: "is_sep (w1 @ colon # w2)" unfolding is_sep_iff by blast
  from assms(1) have k: "kmatch ic key k" by (simp add: kmatch_def)
  from match_field_at_built_ic [OF k sp assms(4), of rest] show ?thesis
    by (simp add: search_value_Cons)
qed

lemma list_all2_chr_match_False: "list_all2 (chr_match False) key k \<longleftrightarrow> k = key"
proof -
  have "chr_match False = (\<lambda>p c. p = c)" by (auto simp: chr_match_def fun_eq_iff)
  then show ?thesis by (auto simp: list_all2_eq [symmetric])
qed

lemma re_search_field_leftmost:
  "re_search_field ic key s = Some (pre, m) \<Longrightarrow> n < length pre \<Longrightarrow>
     match_field_at ic key (drop n s) = None"
proof (induction s arbitrary: pre n)
  case Nil
  then show ?case by simp
next
  case (Cons c s)
  show ?case
  proof (cases "match_field_at ic key (c # s)")
    case (Some m')
    with Cons.prems show ?thesis by simp
  next
    case None
    with Cons.prems obtain pre' where p: "pre = c # pre'"
      and r: "re_search_field ic key s = Some (pre', m)" by auto
    show ?thesis
    proof (cases n)
      case 0
      with None show ?thesis by simp
    next
      case (Suc n')
      with Cons.prems(2) p have "n' < length pre'" by simp
      from Cons.IH [OF r this] Suc show ?thesis by simp
    qed
  qed
qed

lemma search_value_first_match:
  assumes "search_value ic key content = Some v"
  shows "\<exists>pre k w1 w2 rest.
           content = pre @ dq # k @ dq # w1 @ colon # w2 @ dq # v @ dq # rest \<and>
           list_all2 (chr_match ic) key k \<and> list_all is_space w1 \<and> list_all is_space w2 \<and>
           dq \<notin> set v \<and>
           (\<forall>n<length pre. match_field_at ic key (drop n content) = None)"
proof -
  from assms obtain pre g1 rest where r: "re_search_field ic key content = Some (pre, g1, v, rest)"
    by (auto simp: search_value_def)
  from re_search_field_split [OF r]
  have c: "content = pre @ g1 @ v @ dq # rest"
    and m: "match_field_at ic key (g1 @ v @ dq # rest) = Some (g1, v, rest)" by simp_all
  from match_field_at_shape_ic [OF m] obtain k sp where k: "kmatch ic key k" and sp: "is_sep sp"
    and g1: "g1 = dq # k @ dq # sp @ [dq]" and v: "dq \<notin> set v" by blast
  from sp obtain w1 w2 where w: "sp = w1 @ colon # w2" "list_all is_space w1" "list_all is_space w2"
    unfolding is_sep_iff by blast
  have l: "\<forall>n<length pre. match_field_at ic key (drop n content) = None"
    using re_search_field_leftmost [OF r] by blast
  from c g1 w(1) have "content = pre @ dq # k @ dq # w1 @ colon # w2 @ dq # v @ dq # rest"
    by simp
  with k w(2,3) v l show ?thesis unfolding kmatch_def by blast
qed

lemma search_value_skip:
  "(\<forall>n<length pre. match_field_at ic key (drop n (pre @ s)) = None) \<Longrightarrow>
     search_value ic key (pre @ s) = search_value ic key s"
proof (induction pre)
  case Nil
  show ?case by simp
next
  case (Cons c pre)
  from Cons.prems have "match_field_at ic key (drop 0 ((c # pre) @ s)) = None" by blast
  then have m: "match_field_at ic key (c # pre @ s) = None" by simp
  have "\<forall>n<length pre. match_field_at ic key (drop n (pre @ s)) = None"
  proof (intro allI impI)
    fix n assume "n < length pre"
    then have "Suc n < length (c # pre)" by simp
    with Cons.prems have "match_field_at ic key (drop (Suc n) ((c # pre) @ s)) = None" by blast
    then show "match_field_at ic key (drop n (pre @ s)) = None" by simp
  qed
  from Cons.IH [OF this] m show ?case by (simp add: search_value_Cons)
qed

lemma search_value_iff:
  "search_value ic key content = Some v \<longleftrightarrow>
     (\<exists>pre k w1 w2 rest.
        content = pre @ dq # k @ dq # w1 @ colon # w2 @ dq # v @ dq # rest \<and>
        list_all2 (chr_match ic) key k \<and> list_all is_space w1 \<and> list_all is_space w2 \<and>
        dq \<notin> set v \<and>
        (\<forall>n<length pre. match_field_at ic key (drop n content) = None))"
proof
  assume "search_value ic key content = Some v"
  then show "\<exists>pre k w1 w2 rest.
        content = pre @ dq # k @ dq # w1 @ colon # w2 @ dq # v @ dq # rest \<and>
        list_all2 (chr_match ic) key k \<and> list_all is_space w1 \<and> list_all is_space w2 \<and>
        dq \<notin> set v \<and>
        (\<forall>n<length pre. match_field_at ic key (drop n content) = None)"
    by (rule search_value_first_match)
next
  assume "\<exists>pre k w1 w2 rest.
        content = pre @ dq # k @ dq # w1 @ colon # w2 @ dq # v @ dq # rest \<and>
        list_all2 (chr_match ic) key k \<and> list_all is_space w1 \<and> list_all is_space w2 \<and>
        dq \<notin> set v \<and>
        (\<forall>n<length pre. match_field_at ic key (drop n content) = None)"
  then obtain pre k w1 w2 rest where
    c: "content = pre @ dq # k @ dq # w1 @ colon # w2 @ dq # v @ dq # rest"
    and k: "list_all2 (chr_match ic) key k" and w: "list_all is_space w1" "list_all is_space w2"
    and v: "dq \<notin> set v"
    and l: "\<forall>n<length pre. match_field_at ic key (drop n content) = None"
    by blast
  from l have "search_value ic key (pre @ dq # k @ dq # w1 @ colon # w2 @ dq # v @ dq # rest)
      = search_value ic key (dq # k @ dq # w1 @ colon # w2 @ dq # v @ dq # rest)"
    unfolding c by (rule search_value_skip)
  with search_value_built [OF k w v, of rest] show "search_value ic key content = Some v"
    unfolding c by simp
qed

lemma search_value_exact_iff:
  "search_value False key content = Some v \<longleftrightarrow>
     (\<exists>pre w1 w2 rest.
        content = pre @ dq # key @ dq # w1 @ colon # w2 @ dq # v @ dq # rest \<and>
        list_all is_space w1 \<and> list_all is_space w2 \<and> dq \<notin> set v \<and>
        (\<forall>n<length pre. match_field_at False key (drop n content) = None))"
  unfolding search_value_iff list_all2_chr_match_False by auto

section \<open>Comment stripping and quoted values\<close>

text \<open>A text holds the start of a comment: \<open>/*\<close> or \<open>//\<close>.\<close>

fun has_comment_start :: "ustring \<Rightarrow> bool" where
  "has_comment_start [] = False"
| "has_comment_start [c] = False"
| "has_comment_start (c # d # s) =
     ((c = slash \<and> (d = star \<or> d = slash)) \<or> has_comment_start (d # s))"

lemma strip_block_comments_id:
  "\<not> has_comment_start s \<Longrightarrow> strip_block_comments s = s"
  by (induction s rule: strip_block_comments.induct) auto

lemma strip_line_comments_id:
  "\<not> has_comment_start s \<Longrightarrow> strip_line_comments s = s"
  by (induction s rule: strip_line_comments.induct) auto

lemma strip_comments_id:
  "\<not> has_comment_start s \<Longrightarrow> strip_comments s = s"
  by (simp add: strip_comments_def strip_block_comments_id strip_line_comments_id)

















lemma has_comment_start_iff:
  "has_comment_start s \<longleftrightarrow> sublist [slash, star] s \<or> sublist [slash, slash] s"
  by (induction s rule: has_comment_start.induct) (auto simp: sublist_Cons_right)











section \<open>The span of an extracted value\<close>

text \<open>
  Claim C10, as stated, fails: the fields are searched in the comment-stripped
  text, so a returned value need not be a span of the input text. With
  \<open>/*b*/\<close> inside the quotes the extractor returns \<open>ac\<close>, which occurs nowhere
  in the input; with \<open>//\<close> inside the quotes, the span of the input between the
  opening quote and the very next double quote is \<open>a//b\<close>, and the extractor
  returns text from behind that quote.
\<close>

theorem extracted_value_span_counterexample:
  \<open>extract_description (ustr ''{"Description": "a/*b*/c"}'') = Some (ustr ''ac'') \<and>
   \<not> sublist (ustr ''ac'') (ustr ''{"Description": "a/*b*/c"}'') \<and>
   search_value False name_key (ustr ''{"Name": "a//b"'' @ [nl] @ ustr '', "z": "w"}'')
     = Some (ustr ''a//b'') \<and>
   extract_name (ustr ''{"Name": "a//b"'' @ [nl] @ ustr '', "z": "w"}'')
     = Some (ustr ''a'' @ [nl] @ ustr '', '')\<close>
  by (simp add: eval_defs sublist_code)

text \<open>
  Claim C10, amended. The Field Extractor returns \<open>v\<close> for \<open>Name\<close>,
  \<open>Description\<close> or \<open>UniqueID\<close> exactly when the comment-stripped text is
  \<open>pre\<close>, the quoted key (for \<open>UniqueID\<close> in any case), white space, a colon,
  white space, a double quote, \<open>v\<close>, a double quote and a rest, where \<open>v\<close> holds
  no double quote and the pattern matches at no position inside \<open>pre\<close>: the
  value is the span of the comment-stripped text between the opening quote of
  the leftmost match and the very next double quote. A text that holds neither
  \<open>/*\<close> nor \<open>//\<close> is its own comment-stripped text. A value written with an
  escaped quote is cut at the backslash: \<^verbatim>\<open>{"Name": "a\"b"}\<close> yields
  \<^verbatim>\<open>a\\<close>.
\<close>

theorem extracted_value_span:
  \<open>(extract_name raw = Some v \<longleftrightarrow>
      (\<exists>pre w1 w2 rest.
         strip_comments raw = pre @ dq # name_key @ dq # w1 @ colon # w2 @ dq # v @ dq # rest \<and>
         list_all is_space w1 \<and> list_all is_space w2 \<and> dq \<notin> set v \<and>
         (\<forall>n<length pre. match_field_at False name_key (drop n (strip_comments raw)) = None))) \<and>
   (extract_description raw = Some v \<longleftrightarrow>
      (\<exists>pre w1 w2 rest.
         strip_comments raw = pre @ dq # desc_key @ dq # w1 @ colon # w2 @ dq # v @ dq # rest \<and>
         list_all is_space w1 \<and> list_all is_space w2 \<and> dq \<notin> set v \<and>
         (\<forall>n<length pre. match_field_at False desc_key (drop n (strip_comments raw)) = None))) \<and>
   (extract_unique_id raw = Some v \<longleftrightarrow>
      (\<exists>pre k w1 w2 rest.
         strip_comments raw = pre @ dq # k @ dq # w1 @ colon # w2 @ dq # v @ dq # rest \<and>
         list_all2 (chr_match True) uniqueid_key k \<and>
         list_all is_space w1 \<and> list_all is_space w2 \<and> dq \<notin> set v \<and>
         (\<forall>n<length pre. match_field_at True uniqueid_key (drop n (strip_comments raw)) = None))) \<and>
   (\<not> sublist [slash, star] raw \<and> \<not> sublist [slash, slash] raw \<longrightarrow> strip_comments raw = raw) \<and>
   extract_name (ustr ''{"Name": "a'' @ [bsl] @ ustr ''"b"}'') = Some (ustr ''a'' @ [bsl])\<close>
proof -
  have ex: \<open>extract_name (ustr ''{"Name": "a'' @ [bsl] @ ustr ''"b"}'') = Some (ustr ''a'' @ [bsl])\<close>
    by (simp add: eval_defs)
  have id: "strip_comments raw = raw"
    if "\<not> sublist [slash, star] raw \<and> \<not> sublist [slash, slash] raw"
    using that by (simp add: strip_comments_id has_comment_start_iff)
  show ?thesis
    unfolding extract_name_def [of raw] extract_description_def extract_unique_id_def
    using search_value_exact_iff [of name_key "strip_comments raw" v]
      search_value_exact_iff [of desc_key "strip_comments raw" v]
      search_value_iff [of True uniqueid_key "strip_comments raw" v] id ex
    by blast
qed

theorem extracted_value_span_witness:
  \<open>extract_unique_id (ustr ''/*c*/{"uniqueid" : "a.b", "x": "y"}'') = Some (ustr ''a.b'') \<and>
   (\<exists>pre k w1 w2 rest.
      strip_comments (ustr ''/*c*/{"uniqueid" : "a.b", "x": "y"}'')
        = pre @ dq # k @ dq # w1 @ colon # w2 @ dq # ustr ''a.b'' @ dq # rest \<and>
      list_all2 (chr_match True) uniqueid_key k \<and>
      list_all is_space w1 \<and> list_all is_space w2 \<and> dq \<notin> set (ustr ''a.b'') \<and>
      (\<forall>n<length pre. match_field_at True uniqueid_key
          (drop n (strip_comments (ustr ''/*c*/{"uniqueid" : "a.b", "x": "y"}''))) = None))\<close>
proof -
  have e: \<open>extract_unique_id (ustr ''/*c*/{"uniqueid" : "a.b", "x": "y"}'') = Some (ustr ''a.b'')\<close>
    by (simp add: eval_defs)
  from extracted_value_span [of \<open>ustr ''/*c*/{"uniqueid" : "a.b", "x": "y"}''\<close> \<open>ustr ''a.b''\<close>] e
  show ?thesis by blast
qed

section \<open>Idempotence and round trip of one patch\<close>

text \<open>
  Claim C1, as stated, fails: a value with a double quote is written with the
  quote escaped, the second patch takes the text up to that quote for the old
  value, and the tail of the first patch stays behind.
\<close>

theorem patch_idempotence_counterexample:
  \<open>patch (ustr ''{"Name": "x"}'') name_key (ustr ''a"b'') =
     Inr (ustr ''{"Name": "a'' @ [bsl] @ ustr ''"b"}'', True) \<and>
   patch (ustr ''{"Name": "a'' @ [bsl] @ ustr ''"b"}'') name_key (ustr ''a"b'') =
     Inr (ustr ''{"Name": "a'' @ [bsl] @ ustr ''"b"b"}'', True) \<and>
   ustr ''{"Name": "a'' @ [bsl] @ ustr ''"b"b"}'' \<noteq> ustr ''{"Name": "a'' @ [bsl] @ ustr ''"b"}''\<close>
  by (simp add: eval_defs)

text \<open>
  Claim C1, amended. For every text and every non-empty value that holds no
  double quote and does not begin with a digit, patching \<open>Name\<close> (or
  \<open>Description\<close>) a second time with the same value returns the text of the
  first patch, with the same \<open>changed\<close> flag.
\<close>

theorem patch_idempotence_amended:
  assumes "V \<noteq> []" and "\<not> is_digit (hd V)" and "dq \<notin> set V"
    and "key = name_key \<or> key = desc_key"
  shows "\<exists>T1 changed. patch T key V = Inr (T1, changed) \<and> patch T1 key V = Inr (T1, changed)"
proof -
  from assms(4) key_quote_free have key: "dq \<notin> set key" by auto
  have w: "str_replace dq [bsl, dq] V = V" using assms(3) by (rule str_replace_absent)
  define T1 where "T1 = replace_values key V T"
  have p1: "patch T key V = Inr (T1, re_search_field False key T \<noteq> None)"
    unfolding T1_def using patch_text [OF assms(1,2), of T key] w by simp
  have idem: "replace_values key V T1 = T1"
    unfolding T1_def by (rule replace_values_idem [OF assms(3) key])
  have flag: "(re_search_field False key T1 \<noteq> None) = (re_search_field False key T \<noteq> None)"
  proof (cases "re_search_field False key T")
    case None
    from replace_values_no_match [OF None, of V] None show ?thesis by (simp add: T1_def)
  next
    case (Some m)
    obtain pre g1 v rest where "m = (pre, g1, v, rest)" by (cases m) auto
    with Some search_after_replace [OF assms(3) key, of T pre g1 v rest] show ?thesis
      by (simp add: T1_def)
  qed
  have p2: "patch T1 key V = Inr (T1, re_search_field False key T \<noteq> None)"
    using patch_text [OF assms(1,2), of T1 key] w idem flag by simp
  from p1 p2 show ?thesis by blast
qed

theorem patch_idempotence_amended_witness:
  \<open>ustr ''a'' @ [bsl] @ ustr ''b'' \<noteq> [] \<and> \<not> is_digit (hd (ustr ''a'' @ [bsl] @ ustr ''b'')) \<and>
   dq \<notin> set (ustr ''a'' @ [bsl] @ ustr ''b'') \<and>
   patch (ustr ''{"Name": "x"}'') name_key (ustr ''a'' @ [bsl] @ ustr ''b'') =
     Inr (ustr ''{"Name": "a'' @ [bsl] @ ustr ''b"}'', True) \<and>
   patch (ustr ''{"Name": "a'' @ [bsl] @ ustr ''b"}'') name_key (ustr ''a'' @ [bsl] @ ustr ''b'') =
     Inr (ustr ''{"Name": "a'' @ [bsl] @ ustr ''b"}'', True)\<close>
proof -
  have h1: \<open>ustr ''a'' @ [bsl] @ ustr ''b'' \<noteq> []\<close> by (simp add: eval_defs)
  have h2: \<open>\<not> is_digit (hd (ustr ''a'' @ [bsl] @ ustr ''b''))\<close> by (simp add: eval_defs)
  have h3: \<open>dq \<notin> set (ustr ''a'' @ [bsl] @ ustr ''b'')\<close> by (simp add: eval_defs)
  have p: \<open>patch (ustr ''{"Name": "x"}'') name_key (ustr ''a'' @ [bsl] @ ustr ''b'') =
     Inr (ustr ''{"Name": "a'' @ [bsl] @ ustr ''b"}'', True)\<close>
    by (simp add: eval_defs)
  from patch_idempotence_amended [OF h1 h2 h3, of name_key \<open>ustr ''{"Name": "x"}''\<close>] p
  have q: \<open>patch (ustr ''{"Name": "a'' @ [bsl] @ ustr ''b"}'') name_key
       (ustr ''a'' @ [bsl] @ ustr ''b'') = Inr (ustr ''{"Name": "a'' @ [bsl] @ ustr ''b"}'', True)\<close>
    by auto
  from h1 h2 h3 p q show ?thesis by blast
qed

lemma escape_value_chars:
  "escape_value V =
     concat (map (\<lambda>c. if c = bsl then [bsl, bsl] else if c = dq then [bsl, dq] else [c]) V)"
  by (induction V) (simp_all add: escape_value_Nil escape_value_Cons)

text \<open>
  Claim C3, as stated, fails. The extractor does not undo the escaping, so a
  value with a double quote comes back cut at the backslash written before the
  quote. Comment stripping interferes as well: a value that holds \<open>//\<close> loses
  its end and its closing quote, so that no field is found; a field that only
  comment stripping brings about (a comment between the colon and the value)
  is not patched and is extracted first; and a field inside a comment is
  patched but never extracted.
\<close>

theorem escaping_round_trip_counterexample:
  \<open>patch (ustr ''{"Name": "x"}'') name_key (ustr ''a"b'') =
     Inr (ustr ''{"Name": "a'' @ [bsl] @ ustr ''"b"}'', True) \<and>
   extract_name (ustr ''{"Name": "a'' @ [bsl] @ ustr ''"b"}'') = Some (ustr ''a'' @ [bsl]) \<and>
   ustr ''a'' @ [bsl] \<noteq> ustr ''a"b'' \<and>
   patch (ustr ''{"Name": "x"}'') name_key (ustr ''a'' @ [bsl] @ ustr ''b//c'') =
     Inr (ustr ''{"Name": "a'' @ [bsl] @ ustr ''b//c"}'', True) \<and>
   extract_name (ustr ''{"Name": "a'' @ [bsl] @ ustr ''b//c"}'') = None \<and>
   patch (ustr ''{"Name": /*c*/ "old", "Name": "x"}'') name_key (ustr ''v'' @ [bsl] @ ustr ''w'') =
     Inr (ustr ''{"Name": /*c*/ "old", "Name": "v'' @ [bsl] @ ustr ''w"}'', True) \<and>
   extract_name (ustr ''{"Name": /*c*/ "old", "Name": "v'' @ [bsl] @ ustr ''w"}'')
     = Some (ustr ''old'') \<and>
   patch (ustr ''/* "Name": "x" */'') name_key (ustr ''v'' @ [bsl] @ ustr ''w'') =
     Inr (ustr ''/* "Name": "v'' @ [bsl] @ ustr ''w" */'', True) \<and>
   extract_name (ustr ''/* "Name": "v'' @ [bsl] @ ustr ''w" */'') = None\<close>
  by (simp add: eval_defs)

text \<open>
  Claim C3, amended. For a non-empty value that holds no double quote and does
  not begin with a digit (backslashes are allowed), patched into a text with a
  matching field, the extractor returns exactly the value on the patched text,
  provided comment stripping does not interfere with the patch: either it
  leaves the patched text unchanged, or it commutes with the patch, that is,
  patching the comment-stripped text finds the field and gives the
  comment-stripped patched text. The escaping step doubles each backslash and
  puts a backslash before each double quote, character by character.
\<close>

theorem escaping_round_trip_amended:
  assumes "V \<noteq> []" and "\<not> is_digit (hd V)" and "dq \<notin> set V"
    and "key = name_key \<or> key = desc_key"
    and "re_search_field False key T \<noteq> None"
    and "patch T key V = Inr (T', changed)"
    and "strip_comments T' = T' \<or>
         patch (strip_comments T) key V = Inr (strip_comments T', True)"
  shows "changed \<and>
         (key = name_key \<longrightarrow> extract_name T' = Some V) \<and>
         (key = desc_key \<longrightarrow> extract_description T' = Some V) \<and>
         escape_value U =
           concat (map (\<lambda>c. if c = bsl then [bsl, bsl] else if c = dq then [bsl, dq] else [c]) U)"
proof -
  from assms(4) key_quote_free have key: "dq \<notin> set key" by auto
  have w: "str_replace dq [bsl, dq] V = V" using assms(3) by (rule str_replace_absent)
  have found: "search_value False key (replace_values key V S) = Some V"
    if "re_search_field False key S \<noteq> None" for S
  proof -
    from that obtain pre g1 v rest where "re_search_field False key S = Some (pre, g1, v, rest)"
      by auto
    from search_after_replace [OF assms(3) key this] show ?thesis
      by (simp add: search_value_def)
  qed
  from patch_text [OF assms(1,2), of T key] w assms(5,6)
  have T': "T' = replace_values key V T" and ch: "changed" by simp_all
  from assms(7) have "search_value False key (strip_comments T') = Some V"
  proof
    assume "strip_comments T' = T'"
    with found [OF assms(5)] T' show ?thesis by simp
  next
    assume "patch (strip_comments T) key V = Inr (strip_comments T', True)"
    with patch_text [OF assms(1,2), of "strip_comments T" key] w
    have "strip_comments T' = replace_values key V (strip_comments T)"
      and "re_search_field False key (strip_comments T) \<noteq> None" by simp_all
    with found [of "strip_comments T"] show ?thesis by simp
  qed
  with ch escape_value_chars [of U] show ?thesis
    by (auto simp: extract_name_def extract_description_def)
qed

theorem escaping_round_trip_amended_witness:
  \<open>ustr ''a'' @ [bsl] @ ustr ''b'' \<noteq> [] \<and> \<not> is_digit (hd (ustr ''a'' @ [bsl] @ ustr ''b'')) \<and>
   dq \<notin> set (ustr ''a'' @ [bsl] @ ustr ''b'') \<and>
   re_search_field False name_key (ustr ''{"Name": "x"}'') \<noteq> None \<and>
   patch (ustr ''{"Name": "x"}'') name_key (ustr ''a'' @ [bsl] @ ustr ''b'') =
     Inr (ustr ''{"Name": "a'' @ [bsl] @ ustr ''b"}'', True) \<and>
   strip_comments (ustr ''{"Name": "a'' @ [bsl] @ ustr ''b"}'') = ustr ''{"Name": "a'' @ [bsl] @ ustr ''b"}'' \<and>
   extract_name (ustr ''{"Name": "a'' @ [bsl] @ ustr ''b"}'') = Some (ustr ''a'' @ [bsl] @ ustr ''b'') \<and>
   re_search_field False name_key (ustr ''/*c*/{"Name": "x"} // d'') \<noteq> None \<and>
   patch (ustr ''/*c*/{"Name": "x"} // d'') name_key (ustr ''a'' @ [bsl] @ ustr ''b'') =
     Inr (ustr ''/*c*/{"Name": "a'' @ [bsl] @ ustr ''b"} // d'', True) \<and>
   strip_comments (ustr ''/*c*/{"Name": "a'' @ [bsl] @ ustr ''b"} // d'')
     \<noteq> ustr ''/*c*/{"Name": "a'' @ [bsl] @ ustr ''b"} // d'' \<and>
   patch (strip_comments (ustr ''/*c*/{"Name": "x"} // d'')) name_key (ustr ''a'' @ [bsl] @ ustr ''b'') =
     Inr (strip_comments (ustr ''/*c*/{"Name": "a'' @ [bsl] @ ustr ''b"} // d''), True) \<and>
   extract_name (ustr ''/*c*/{"Name": "a'' @ [bsl] @ ustr ''b"} // d'')
     = Some (ustr ''a'' @ [bsl] @ ustr ''b'')\<close>
proof -
  have h1: \<open>ustr ''a'' @ [bsl] @ ustr ''b'' \<noteq> []\<close> by (simp add: eval_defs)
  have h2: \<open>\<not> is_digit (hd (ustr ''a'' @ [bsl] @ ustr ''b''))\<close> by (simp add: eval_defs)
  have h3: \<open>dq \<notin> set (ustr ''a'' @ [bsl] @ ustr ''b'')\<close> by (simp add: eval_defs)
  have h5: \<open>re_search_field False name_key (ustr ''{"Name": "x"}'') \<noteq> None\<close>
    by (simp add: eval_defs)
  have h6: \<open>patch (ustr ''{"Name": "x"}'') name_key (ustr ''a'' @ [bsl] @ ustr ''b'') =
     Inr (ustr ''{"Name": "a'' @ [bsl] @ ustr ''b"}'', True)\<close>
    by (simp add: eval_defs)
  have h7: \<open>strip_comments (ustr ''{"Name": "a'' @ [bsl] @ ustr ''b"}'')
      = ustr ''{"Name": "a'' @ [bsl] @ ustr ''b"}''\<close>
    by (simp add: eval_defs)
  from escaping_round_trip_amended [OF h1 h2 h3 _ h5 h6 disjI1 [OF h7], of "[]"]
  have e: \<open>extract_name (ustr ''{"Name": "a'' @ [bsl] @ ustr ''b"}'')
      = Some (ustr ''a'' @ [bsl] @ ustr ''b'')\<close>
    by simp
  have g5: \<open>re_search_field False name_key (ustr ''/*c*/{"Name": "x"} // d'') \<noteq> None\<close>
    by (simp add: eval_defs)
  have g6: \<open>patch (ustr ''/*c*/{"Name": "x"} // d'') name_key (ustr ''a'' @ [bsl] @ ustr ''b'') =
     Inr (ustr ''/*c*/{"Name": "a'' @ [bsl] @ ustr ''b"} // d'', True)\<close>
    by (simp add: eval_defs)
  have g7: \<open>strip_comments (ustr ''/*c*/{"Name": "a'' @ [bsl] @ ustr ''b"} // d'')
     \<noteq> ustr ''/*c*/{"Name": "a'' @ [bsl] @ ustr ''b"} // d''\<close>
    by (simp add: eval_defs)
  have g8: \<open>patch (strip_comments (ustr ''/*c*/{"Name": "x"} // d'')) name_key
       (ustr ''a'' @ [bsl] @ ustr ''b'') =
     Inr (strip_comments (ustr ''/*c*/{"Name": "a'' @ [bsl] @ ustr ''b"} // d''), True)\<close>
    by (simp add: eval_defs)
  from escaping_round_trip_amended [OF h1 h2 h3 _ g5 g6 disjI2 [OF g8], of "[]"]
  have e': \<open>extract_name (ustr ''/*c*/{"Name": "a'' @ [bsl] @ ustr ''b"} // d'')
     = Some (ustr ''a'' @ [bsl] @ ustr ''b'')\<close>
    by simp
  from h1 h2 h3 h5 h6 h7 e g5 g6 g7 g8 e' show ?thesis by blast
qed

end
